theory Spec2Isabelle
  imports Main
begin

section \<open>Documents of the two collections\<close>

text \<open>
  The schemas of \<^verbatim>\<open>models/user.js\<close> and \<^verbatim>\<open>models/task.js\<close>. The field \<^verbatim>\<open>_id\<close> is
  kept in its printed form (24 lower-case hexadecimal digits); dates are millisecond
  time stamps, and a deadline may lie before the epoch.
\<close>

record user =
  uid :: string
  uname :: string
  email :: string
  pendingTasks :: "string list"
  udateCreated :: nat

record task =
  tid :: string
  tname :: string
  description :: string
  deadline :: int
  completed :: bool
  assignedUser :: string
  assignedUserName :: string
  tdateCreated :: nat

record db =
  users :: "user list"
  tasks :: "task list"

definition empty_db :: db where
  "empty_db = \<lparr>users = [], tasks = []\<rparr>"

section \<open>Strings: case folding, trimming, identifiers\<close>

text \<open>
  Strings are lists of ASCII characters; on these, case folding and trimming are those
  of \<^verbatim>\<open>toLowerCase\<close> and \<^verbatim>\<open>trim\<close>.
\<close>

definition lower_char :: "char \<Rightarrow> char" where
  "lower_char c =
     (case map_of (zip ''ABCDEFGHIJKLMNOPQRSTUVWXYZ'' ''abcdefghijklmnopqrstuvwxyz'') c of
        Some l \<Rightarrow> l
      | None \<Rightarrow> c)"

definition toLowerCase :: "string \<Rightarrow> string" where
  "toLowerCase s = map lower_char s"

definition is_space :: "char \<Rightarrow> bool" where
  "is_space c \<longleftrightarrow> c \<in> set [CHR '' '', CHR 0x09, CHR 0x0A, CHR 0x0B, CHR 0x0C, CHR 0x0D]"

definition trim :: "string \<Rightarrow> string" where
  "trim s = rev (dropWhile is_space (rev (dropWhile is_space s)))"

text \<open>The schema options \<^verbatim>\<open>lowercase: true, trim: true\<close> of the email path.\<close>

definition normalize_email :: "string \<Rightarrow> string" where
  "normalize_email s = trim (toLowerCase s)"

definition hexdigit :: "char \<Rightarrow> bool" where
  "hexdigit c \<longleftrightarrow> c \<in> set ''0123456789abcdefABCDEF''"

text \<open>
  Casting a string to an identifier, as every query on \<^verbatim>\<open>_id\<close> does: 24 hexadecimal
  digits of either case are accepted and denote the identifier printed in lower case
  (\<^verbatim>\<open>toString\<close>); any other string raises \<^verbatim>\<open>CastError\<close>, here \<open>None\<close>.
\<close>

definition cast_oid :: "string \<Rightarrow> string option" where
  "cast_oid s = (if length s = 24 \<and> list_all hexdigit s then Some (toLowerCase s) else None)"

section \<open>Errors and responses\<close>

datatype err =
  CastError | DupKey | BadJSON | TypeError | StoreError | TransactionError | ValidationError

datatype payload =
    Empty
  | NoBody
  | UserDoc user
  | TaskDoc task
  | UserDocs "user list"
  | TaskDocs "task list"
  | Count nat

record response =
  status :: nat
  message :: string
  data :: payload

definition json :: "nat \<Rightarrow> string \<Rightarrow> payload \<Rightarrow> response" where
  "json c m p = \<lparr>status = c, message = m, data = p\<rparr>"

section \<open>The store: queries and writes on a snapshot\<close>

definition findById_users :: "string \<Rightarrow> db \<Rightarrow> err + user option" where
  "findById_users i d =
     (case cast_oid i of
        None \<Rightarrow> Inl CastError
      | Some k \<Rightarrow> Inr (find (\<lambda>u. uid u = k) (users d)))"

definition findById_tasks :: "string \<Rightarrow> db \<Rightarrow> err + task option" where
  "findById_tasks i d =
     (case cast_oid i of
        None \<Rightarrow> Inl CastError
      | Some k \<Rightarrow> Inr (find (\<lambda>t. tid t = k) (tasks d)))"

text \<open>\<^verbatim>\<open>User.findOne({ email })\<close> and \<^verbatim>\<open>User.findOne({ email, _id: { $ne: id } })\<close>.\<close>

definition findOne_email :: "string \<Rightarrow> db \<Rightarrow> err + user option" where
  "findOne_email e d = Inr (find (\<lambda>u. email u = normalize_email e) (users d))"

definition findOne_email_ne :: "string \<Rightarrow> string \<Rightarrow> db \<Rightarrow> err + user option" where
  "findOne_email_ne e i d =
     (case cast_oid i of
        None \<Rightarrow> Inl CastError
      | Some k \<Rightarrow> Inr (find (\<lambda>u. email u = normalize_email e \<and> uid u \<noteq> k) (users d)))"

text \<open>
  \<^verbatim>\<open>Task.find({ _id: { $in: ids }, completed: false }).distinct('_id')\<close>: every element
  of \<open>ids\<close> is cast first, so one malformed element fails the whole query.
\<close>

fun cast_all :: "string list \<Rightarrow> string list option" where
  "cast_all [] = Some []"
| "cast_all (x # xs) =
     (case cast_oid x of
        None \<Rightarrow> None
      | Some k \<Rightarrow> (case cast_all xs of None \<Rightarrow> None | Some ks \<Rightarrow> Some (k # ks)))"

definition find_pending_ids :: "string list \<Rightarrow> db \<Rightarrow> err + string list" where
  "find_pending_ids ids d =
     (case cast_all ids of
        None \<Rightarrow> Inl CastError
      | Some ks \<Rightarrow>
          Inr (remdups (map tid (filter (\<lambda>t. tid t \<in> set ks \<and> \<not> completed t) (tasks d)))))"

text \<open>
  Inserting a document: the document is validated against the schema (a required string
  is not empty, a date is in the range of a \<^verbatim>\<open>Date\<close>), then the unique indexes on \<^verbatim>\<open>_id\<close>
  and on \<^verbatim>\<open>email\<close> are checked.
\<close>

definition max_date :: int where
  "max_date = 8640000000000000"

definition create_user :: "user \<Rightarrow> db \<Rightarrow> err + db" where
  "create_user u d =
     (if uname u = [] \<or> email u = [] then Inl ValidationError
      else if (\<exists>v \<in> set (users d). uid v = uid u \<or> email v = email u) then Inl DupKey
      else Inr (d\<lparr>users := users d @ [u]\<rparr>))"

definition create_task :: "task \<Rightarrow> db \<Rightarrow> err + db" where
  "create_task t d =
     (if tname t = [] \<or> deadline t < - max_date \<or> max_date < deadline t then Inl ValidationError
      else if (\<exists>v \<in> set (tasks d). tid v = tid t) then Inl DupKey
      else Inr (d\<lparr>tasks := tasks d @ [t]\<rparr>))"

definition updateMany_tasks :: "(task \<Rightarrow> bool) \<Rightarrow> (task \<Rightarrow> task) \<Rightarrow> db \<Rightarrow> err + db" where
  "updateMany_tasks P f d = Inr (d\<lparr>tasks := map (\<lambda>t. if P t then f t else t) (tasks d)\<rparr>)"

definition updateMany_users :: "(user \<Rightarrow> bool) \<Rightarrow> (user \<Rightarrow> user) \<Rightarrow> db \<Rightarrow> err + db" where
  "updateMany_users P f d = Inr (d\<lparr>users := map (\<lambda>u. if P u then f u else u) (users d)\<rparr>)"

text \<open>An update of the first document that matches, none when there is no match.\<close>

fun update_first :: "('a \<Rightarrow> bool) \<Rightarrow> ('a \<Rightarrow> 'a) \<Rightarrow> 'a list \<Rightarrow> 'a list" where
  "update_first P f [] = []"
| "update_first P f (x # xs) = (if P x then f x # xs else x # update_first P f xs)"

fun delete_first :: "('a \<Rightarrow> bool) \<Rightarrow> 'a list \<Rightarrow> 'a list" where
  "delete_first P [] = []"
| "delete_first P (x # xs) = (if P x then xs else x # delete_first P xs)"

text \<open>
  \<^verbatim>\<open>User.updateOne({ _id: i }, ...)\<close> and \<^verbatim>\<open>User.findByIdAndUpdate(i, ...)\<close> with an update
  that leaves the email alone.
\<close>

definition updateOne_user :: "string \<Rightarrow> (user \<Rightarrow> user) \<Rightarrow> db \<Rightarrow> err + db" where
  "updateOne_user i f d =
     (case cast_oid i of
        None \<Rightarrow> Inl CastError
      | Some k \<Rightarrow> Inr (d\<lparr>users := update_first (\<lambda>u. uid u = k) f (users d)\<rparr>))"

text \<open>
  \<^verbatim>\<open>findByIdAndUpdate(i, doc, { new: true, overwrite: true })\<close>: the stored document is
  replaced by \<open>doc\<close> under the same \<^verbatim>\<open>_id\<close>; the outcome is the new document or null.
\<close>

definition overwrite_user ::
  "string \<Rightarrow> string \<Rightarrow> string \<Rightarrow> string list \<Rightarrow> nat \<Rightarrow> db \<Rightarrow> err + db" where
  "overwrite_user i n e p dc d =
     (case cast_oid i of
        None \<Rightarrow> Inl CastError
      | Some k \<Rightarrow>
          if (\<exists>u \<in> set (users d). uid u = k) \<and>
             (\<exists>v \<in> set (users d). uid v \<noteq> k \<and> email v = normalize_email e)
          then Inl DupKey
          else Inr (d\<lparr>users := update_first (\<lambda>u. uid u = k)
                 (\<lambda>u. \<lparr>uid = uid u, uname = n, email = normalize_email e,
                       pendingTasks = p, udateCreated = dc\<rparr>) (users d)\<rparr>))"

definition overwrite_task ::
  "string \<Rightarrow> string \<Rightarrow> string \<Rightarrow> int \<Rightarrow> bool \<Rightarrow> string \<Rightarrow> string \<Rightarrow> nat \<Rightarrow> db \<Rightarrow> err + db" where
  "overwrite_task i n ds dl c a an dc d =
     (case cast_oid i of
        None \<Rightarrow> Inl CastError
      | Some k \<Rightarrow>
          Inr (d\<lparr>tasks := update_first (\<lambda>t. tid t = k)
                 (\<lambda>t. \<lparr>tid = tid t, tname = n, description = ds, deadline = dl, completed = c,
                       assignedUser = a, assignedUserName = an, tdateCreated = dc\<rparr>) (tasks d)\<rparr>))"

definition deleteOne_user :: "string \<Rightarrow> db \<Rightarrow> err + db" where
  "deleteOne_user k d = Inr (d\<lparr>users := delete_first (\<lambda>u. uid u = k) (users d)\<rparr>)"

definition deleteOne_task :: "string \<Rightarrow> db \<Rightarrow> err + db" where
  "deleteOne_task k d = Inr (d\<lparr>tasks := delete_first (\<lambda>t. tid t = k) (tasks d)\<rparr>)"

text \<open>The update operators \<^verbatim>\<open>$pull\<close>, \<^verbatim>\<open>$pull ... $in\<close> and \<^verbatim>\<open>$addToSet\<close> on an array.\<close>

definition pull :: "string \<Rightarrow> string list \<Rightarrow> string list" where
  "pull x xs = filter (\<lambda>y. y \<noteq> x) xs"

definition pull_in :: "string list \<Rightarrow> string list \<Rightarrow> string list" where
  "pull_in vs xs = filter (\<lambda>y. y \<notin> set vs) xs"

definition addToSet :: "string \<Rightarrow> string list \<Rightarrow> string list" where
  "addToSet x xs = (if x \<in> set xs then xs else xs @ [x])"

section \<open>Sessions and transactions\<close>

text \<open>
  A session holds the committed database and the snapshot the transaction works on.
  A store call that carries the session option acts on the snapshot; one that does not
  acts on the committed data at once. \<open>nwrites\<close> counts the writes issued so far; a
  plan names the writes that the store makes fail, and with which error. \<open>txn\<close> is the
  state of the transaction: active from its start, committed once a commit has been
  attempted (whether or not the store accepted it), aborted after an abort.
\<close>

datatype txn_state = Active | Committed | Aborted

record session =
  committed :: db
  working :: db
  nwrites :: nat
  txn :: txn_state

datatype opt = InSession | NoSession

type_synonym plan = "nat \<Rightarrow> err option"

type_synonym 'a act = "session \<Rightarrow> (err + 'a) \<times> session"

definition no_faults :: plan where
  "no_faults = (\<lambda>_. None)"

definition ret :: "'a \<Rightarrow> 'a act" where
  "ret x s = (Inr x, s)"

definition throw :: "err \<Rightarrow> 'a act" where
  "throw e s = (Inl e, s)"

definition bnd :: "'a act \<Rightarrow> ('a \<Rightarrow> 'b act) \<Rightarrow> 'b act" where
  "bnd m f s = (case m s of (Inl e, s') \<Rightarrow> (Inl e, s') | (Inr x, s') \<Rightarrow> f x s')"

definition startTransaction :: "db \<Rightarrow> session" where
  "startTransaction d = \<lparr>committed = d, working = d, nwrites = 0, txn = Active\<rparr>"

text \<open>
  An abort discards the snapshot of an active transaction. The session refuses to abort
  a transaction that a commit has been attempted on, or that is aborted already: the call
  raises.
\<close>

definition abortTransaction :: "unit act" where
  "abortTransaction s =
     (if txn s = Active then (Inr (), s\<lparr>working := committed s, txn := Aborted\<rparr>)
      else (Inl TransactionError, s))"

text \<open>The commit is a write of its own, which the store can make fail as any other.\<close>

definition commitTransaction :: "plan \<Rightarrow> unit act" where
  "commitTransaction fp s =
     (case fp (nwrites s) of
        Some e \<Rightarrow> (Inl e, s\<lparr>nwrites := Suc (nwrites s), txn := Committed\<rparr>)
      | None \<Rightarrow> (Inr (), s\<lparr>committed := working s, nwrites := Suc (nwrites s),
                           txn := Committed\<rparr>))"

definition rd :: "opt \<Rightarrow> (db \<Rightarrow> err + 'a) \<Rightarrow> 'a act" where
  "rd so q s =
     (case q (case so of InSession \<Rightarrow> working s | NoSession \<Rightarrow> committed s) of
        Inl e \<Rightarrow> (Inl e, s)
      | Inr x \<Rightarrow> (Inr x, s))"

definition wr :: "plan \<Rightarrow> opt \<Rightarrow> (db \<Rightarrow> err + db) \<Rightarrow> unit act" where
  "wr fp so w s =
     (let s1 = s\<lparr>nwrites := Suc (nwrites s)\<rparr> in
      case fp (nwrites s) of
        Some e \<Rightarrow> (Inl e, s1)
      | None \<Rightarrow>
          (case so of
             InSession \<Rightarrow>
               (case w (working s) of
                  Inl e \<Rightarrow> (Inl e, s1)
                | Inr d' \<Rightarrow> (Inr (), s1\<lparr>working := d'\<rparr>))
           | NoSession \<Rightarrow>
               (case w (committed s) of
                  Inl e \<Rightarrow> (Inl e, s1)
                | Inr d' \<Rightarrow> (Inr (), s1\<lparr>committed := d', working := d'\<rparr>))))"


section \<open>Request bodies\<close>

text \<open>
  A field that the JSON body does not carry is \<open>None\<close>. \<open>b_pendingTasks\<close> is \<open>None\<close>
  also when the value is not an array. The handlers never read \<open>b_dateCreated\<close> and
  \<open>tb_dateCreated\<close>; they stand for a creation time the caller submits.
\<close>

record user_body =
  b_name :: "string option"
  b_email :: "string option"
  b_pendingTasks :: "string list option"
  b_dateCreated :: "nat option"

datatype jsval = JBool bool | JStr string | JOther

record task_body =
  tb_name :: "string option"
  tb_description :: "string option"
  tb_deadline :: "int option"
  tb_assignedUser :: "string option"
  tb_assignedUserName :: "string option"
  tb_completed :: "jsval option"
  tb_dateCreated :: "nat option"

definition falsy :: "string option \<Rightarrow> bool" where
  "falsy v \<longleftrightarrow> v = None \<or> v = Some []"

definition falsy_num :: "int option \<Rightarrow> bool" where
  "falsy_num v \<longleftrightarrow> v = None \<or> v = Some 0"

definition str_or_empty :: "string option \<Rightarrow> string" where
  "str_or_empty v = (case v of None \<Rightarrow> [] | Some s \<Rightarrow> s)"

definition toBoolean :: "jsval option \<Rightarrow> bool \<Rightarrow> bool" where
  "toBoolean v fallback =
     (case v of
        Some (JBool b) \<Rightarrow> b
      | Some (JStr s) \<Rightarrow>
          (let s' = trim (toLowerCase s) in
           if s' = ''true'' then True else if s' = ''false'' then False else fallback)
      | _ \<Rightarrow> fallback)"

definition unassign :: "task \<Rightarrow> task" where
  "unassign t = t\<lparr>assignedUser := [], assignedUserName := ''unassigned''\<rparr>"

definition assign :: "string \<Rightarrow> string \<Rightarrow> task \<Rightarrow> task" where
  "assign i n t = t\<lparr>assignedUser := i, assignedUserName := n\<rparr>"

definition doc_payload_user :: "user option \<Rightarrow> payload" where
  "doc_payload_user r = (case r of None \<Rightarrow> Empty | Some u \<Rightarrow> UserDoc u)"

section \<open>The users router\<close>

text \<open>
  Each mutating handler is a body (the \<^verbatim>\<open>try\<close> block), a function from the error raised
  to the response of the \<^verbatim>\<open>catch\<close> block, and the handler itself. The catch block aborts
  the transaction before it answers; when that abort raises, the handler sends no
  response, which is the result \<open>None\<close>.
\<close>

text \<open>\<^verbatim>\<open>POST /api/users\<close>. \<open>nid\<close> is the identifier generated for the new document, \<open>now\<close> the clock.\<close>

definition users_post_try :: "plan \<Rightarrow> string \<Rightarrow> nat \<Rightarrow> user_body \<Rightarrow> response act" where
  "users_post_try fp nid now b =
     (if falsy (b_name b) \<or> falsy (b_email b) then
        bnd abortTransaction (\<lambda>_. ret (json 400 ''Missing required fields'' Empty))
      else
        bnd (rd InSession (findOne_email (str_or_empty (b_email b)))) (\<lambda>dup.
        if dup \<noteq> None then
          bnd abortTransaction (\<lambda>_. ret (json 400 ''Email already exists'' Empty))
        else
          let pend = (case b_pendingTasks b of None \<Rightarrow> [] | Some l \<Rightarrow> l);
              user = \<lparr>uid = nid, uname = str_or_empty (b_name b),
                      email = normalize_email (str_or_empty (b_email b)),
                      pendingTasks = pend, udateCreated = now\<rparr>
          in
          bnd (wr fp InSession (create_user user)) (\<lambda>_.
          bnd (if pend \<noteq> [] then rd InSession (find_pending_ids pend) else ret []) (\<lambda>validTasks.
          bnd (if validTasks \<noteq> [] then
                 bnd (wr fp InSession (updateMany_tasks (\<lambda>t. tid t \<in> set validTasks)
                        (assign (uid user) (uname user)))) (\<lambda>_.
                 bnd (wr fp InSession (updateMany_users
                        (\<lambda>u. uid u \<noteq> uid user \<and> (\<exists>x \<in> set (pendingTasks u). x \<in> set validTasks))
                        (\<lambda>u. u\<lparr>pendingTasks := pull_in validTasks (pendingTasks u)\<rparr>))) (\<lambda>_.
                 wr fp InSession (updateOne_user (uid user) (\<lambda>u. u\<lparr>pendingTasks := validTasks\<rparr>))))
               else
                 wr fp InSession (updateOne_user (uid user) (\<lambda>u. u\<lparr>pendingTasks := []\<rparr>))) (\<lambda>_.
          bnd (commitTransaction fp) (\<lambda>_.
          ret (json 201 ''User created'' (UserDoc (user\<lparr>pendingTasks := validTasks\<rparr>)))))))))"

definition users_post_catch :: "err \<Rightarrow> response" where
  "users_post_catch e = json 500 ''Server error'' Empty"

definition users_post :: "plan \<Rightarrow> string \<Rightarrow> nat \<Rightarrow> user_body \<Rightarrow> db \<Rightarrow> response option \<times> db" where
  "users_post fp nid now b d =
     (case users_post_try fp nid now b (startTransaction d) of
        (Inr r, s) \<Rightarrow> (Some r, committed s)
      | (Inl e, s) \<Rightarrow>
          (case abortTransaction s of
             (Inr _, s') \<Rightarrow> (Some (users_post_catch e), committed s')
           | (Inl _, s') \<Rightarrow> (None, committed s')))"

text \<open>\<^verbatim>\<open>PUT /api/users/:id\<close>.\<close>

definition users_put_try :: "plan \<Rightarrow> string \<Rightarrow> user_body \<Rightarrow> response act" where
  "users_put_try fp i b =
     bnd (rd InSession (findById_users i)) (\<lambda>found.
     case found of
       None \<Rightarrow> bnd abortTransaction (\<lambda>_. ret (json 404 ''User not found'' Empty))
     | Some user \<Rightarrow>
        if falsy (b_name b) \<or> falsy (b_email b) \<or> b_pendingTasks b = None then
          bnd abortTransaction (\<lambda>_. ret (json 400 ''Missing required fields'' Empty))
        else
          bnd (rd InSession (findOne_email_ne (str_or_empty (b_email b)) i)) (\<lambda>dup.
          if dup \<noteq> None then
            bnd abortTransaction (\<lambda>_. ret (json 400 ''Email already exists'' Empty))
          else
            let name = str_or_empty (b_name b);
                pend = (case b_pendingTasks b of None \<Rightarrow> [] | Some l \<Rightarrow> l);
                originalDateCreated = udateCreated user
            in
            bnd (wr fp InSession (updateMany_tasks
                   (\<lambda>t. assignedUser t = uid user \<and> \<not> completed t) unassign)) (\<lambda>_.
            bnd (if pend \<noteq> [] then rd InSession (find_pending_ids pend) else ret []) (\<lambda>validTasks.
            bnd (if validTasks \<noteq> [] then
                   bnd (wr fp InSession (updateMany_tasks (\<lambda>t. tid t \<in> set validTasks)
                          (assign (uid user) name))) (\<lambda>_.
                   wr fp InSession (updateMany_users
                     (\<lambda>u. uid u \<noteq> uid user \<and> (\<exists>x \<in> set (pendingTasks u). x \<in> set validTasks))
                     (\<lambda>u. u\<lparr>pendingTasks := pull_in validTasks (pendingTasks u)\<rparr>)))
                 else ret ()) (\<lambda>_.
            bnd (wr fp InSession (overwrite_user i name (str_or_empty (b_email b)) validTasks
                   originalDateCreated)) (\<lambda>_.
            bnd (rd InSession (findById_users i)) (\<lambda>updated.
            bnd (commitTransaction fp) (\<lambda>_.
            ret (json 200 ''User updated'' (doc_payload_user updated))))))))))"

definition users_put_catch :: "err \<Rightarrow> response" where
  "users_put_catch e =
     (if e = CastError then json 404 ''User not found'' Empty
      else if e = DupKey then json 400 ''Email already exists'' Empty
      else json 500 ''Server error'' Empty)"

definition users_put :: "plan \<Rightarrow> string \<Rightarrow> user_body \<Rightarrow> db \<Rightarrow> response option \<times> db" where
  "users_put fp i b d =
     (case users_put_try fp i b (startTransaction d) of
        (Inr r, s) \<Rightarrow> (Some r, committed s)
      | (Inl e, s) \<Rightarrow>
          (case abortTransaction s of
             (Inr _, s') \<Rightarrow> (Some (users_put_catch e), committed s')
           | (Inl _, s') \<Rightarrow> (None, committed s')))"

text \<open>\<^verbatim>\<open>DELETE /api/users/:id\<close>.\<close>

definition users_delete_try :: "plan \<Rightarrow> string \<Rightarrow> response act" where
  "users_delete_try fp i =
     bnd (rd InSession (findById_users i)) (\<lambda>found.
     case found of
       None \<Rightarrow> bnd abortTransaction (\<lambda>_. ret (json 404 ''User not found'' Empty))
     | Some u \<Rightarrow>
         bnd (wr fp InSession (updateMany_tasks
                (\<lambda>t. assignedUser t = uid u \<and> \<not> completed t) unassign)) (\<lambda>_.
         bnd (wr fp InSession (deleteOne_user (uid u))) (\<lambda>_.
         bnd (commitTransaction fp) (\<lambda>_.
         ret (json 204 [] NoBody)))))"

definition users_delete_catch :: "err \<Rightarrow> response" where
  "users_delete_catch e =
     (if e = CastError then json 404 ''User not found'' Empty
      else json 500 ''Server error'' Empty)"

definition users_delete :: "plan \<Rightarrow> string \<Rightarrow> db \<Rightarrow> response option \<times> db" where
  "users_delete fp i d =
     (case users_delete_try fp i (startTransaction d) of
        (Inr r, s) \<Rightarrow> (Some r, committed s)
      | (Inl e, s) \<Rightarrow>
          (case abortTransaction s of
             (Inr _, s') \<Rightarrow> (Some (users_delete_catch e), committed s')
           | (Inl _, s') \<Rightarrow> (None, committed s')))"

section \<open>The tasks router\<close>

text \<open>
  The assignee of a create or replace request: the empty string stays unassigned; any
  other string is looked up, and the string itself is kept when a user is found.
\<close>

definition resolve_assignee :: "string \<Rightarrow> (string \<times> string) act" where
  "resolve_assignee a =
     (if a \<noteq> [] then
        bnd (rd InSession (findById_users a)) (\<lambda>u.
        ret (case u of Some v \<Rightarrow> (a, uname v) | None \<Rightarrow> ([], ''unassigned'')))
      else ret ([], ''unassigned''))"

text \<open>\<^verbatim>\<open>POST /api/tasks\<close>.\<close>

definition tasks_post_try :: "plan \<Rightarrow> string \<Rightarrow> nat \<Rightarrow> task_body \<Rightarrow> response act" where
  "tasks_post_try fp nid now b =
     (if falsy (tb_name b) \<or> falsy_num (tb_deadline b) then
        bnd abortTransaction (\<lambda>_. ret (json 400 ''Missing required fields'' Empty))
      else
        let completedBool = toBoolean (tb_completed b) False in
        bnd (resolve_assignee (str_or_empty (tb_assignedUser b))) (\<lambda>(assignedUserId, assignedUserNameFinal).
        let t = \<lparr>tid = nid, tname = str_or_empty (tb_name b),
                 description = str_or_empty (tb_description b),
                 deadline = (case tb_deadline b of None \<Rightarrow> 0 | Some x \<Rightarrow> x),
                 completed = completedBool,
                 assignedUser = assignedUserId,
                 assignedUserName =
                   (if assignedUserId \<noteq> [] then assignedUserNameFinal else ''unassigned''),
                 tdateCreated = now\<rparr>
        in
        bnd (wr fp InSession (create_task t)) (\<lambda>_.
        bnd (if assignedUserId \<noteq> [] \<and> \<not> completedBool then
               wr fp InSession (updateOne_user assignedUserId
                 (\<lambda>u. u\<lparr>pendingTasks := addToSet (tid t) (pendingTasks u)\<rparr>))
             else ret ()) (\<lambda>_.
        bnd (commitTransaction fp) (\<lambda>_.
        ret (json 201 ''Task created'' (TaskDoc t)))))))"

definition tasks_post_catch :: "err \<Rightarrow> response" where
  "tasks_post_catch e = json 500 ''Server error'' Empty"

definition tasks_post :: "plan \<Rightarrow> string \<Rightarrow> nat \<Rightarrow> task_body \<Rightarrow> db \<Rightarrow> response option \<times> db" where
  "tasks_post fp nid now b d =
     (case tasks_post_try fp nid now b (startTransaction d) of
        (Inr r, s) \<Rightarrow> (Some r, committed s)
      | (Inl e, s) \<Rightarrow>
          (case abortTransaction s of
             (Inr _, s') \<Rightarrow> (Some (tasks_post_catch e), committed s')
           | (Inl _, s') \<Rightarrow> (None, committed s')))"

text \<open>\<^verbatim>\<open>PUT /api/tasks/:id\<close>.\<close>

definition tasks_put_try :: "plan \<Rightarrow> string \<Rightarrow> task_body \<Rightarrow> response act" where
  "tasks_put_try fp i b =
     bnd (rd InSession (findById_tasks i)) (\<lambda>found.
     case found of
       None \<Rightarrow> bnd abortTransaction (\<lambda>_. ret (json 404 ''Task not found'' Empty))
     | Some cur \<Rightarrow>
        if falsy (tb_name b) \<or> falsy_num (tb_deadline b) \<or> tb_completed b = None then
          bnd abortTransaction (\<lambda>_. ret (json 400 ''Missing required fields'' Empty))
        else
          let completedBool = toBoolean (tb_completed b) False in
          bnd (resolve_assignee (str_or_empty (tb_assignedUser b))) (\<lambda>(newAssignee, newAssigneeName).
          let prevAssignee = assignedUser cur in
          bnd (wr fp InSession (overwrite_task i (str_or_empty (tb_name b))
                 (str_or_empty (tb_description b))
                 (case tb_deadline b of None \<Rightarrow> 0 | Some x \<Rightarrow> x)
                 completedBool newAssignee
                 (if newAssignee \<noteq> [] then newAssigneeName else ''unassigned'')
                 (tdateCreated cur))) (\<lambda>_.
          bnd (rd InSession (findById_tasks i)) (\<lambda>res.
          case res of
            None \<Rightarrow> throw TypeError
          | Some updated \<Rightarrow>
              bnd (if prevAssignee \<noteq> [] \<and> prevAssignee \<noteq> newAssignee then
                     wr fp InSession (updateOne_user prevAssignee
                       (\<lambda>u. u\<lparr>pendingTasks := pull (tid updated) (pendingTasks u)\<rparr>))
                   else ret ()) (\<lambda>_.
              bnd (if newAssignee \<noteq> [] then
                     (if completedBool then
                        wr fp InSession (updateOne_user newAssignee
                          (\<lambda>u. u\<lparr>pendingTasks := pull (tid updated) (pendingTasks u)\<rparr>))
                      else
                        wr fp InSession (updateOne_user newAssignee
                          (\<lambda>u. u\<lparr>pendingTasks := addToSet (tid updated) (pendingTasks u)\<rparr>)))
                   else ret ()) (\<lambda>_.
              bnd (commitTransaction fp) (\<lambda>_.
              ret (json 200 ''Task updated'' (TaskDoc updated)))))))))"

definition tasks_put_catch :: "err \<Rightarrow> response" where
  "tasks_put_catch e =
     (if e = CastError then json 404 ''Task not found'' Empty
      else json 500 ''Server error'' Empty)"

definition tasks_put :: "plan \<Rightarrow> string \<Rightarrow> task_body \<Rightarrow> db \<Rightarrow> response option \<times> db" where
  "tasks_put fp i b d =
     (case tasks_put_try fp i b (startTransaction d) of
        (Inr r, s) \<Rightarrow> (Some r, committed s)
      | (Inl e, s) \<Rightarrow>
          (case abortTransaction s of
             (Inr _, s') \<Rightarrow> (Some (tasks_put_catch e), committed s')
           | (Inl _, s') \<Rightarrow> (None, committed s')))"

text \<open>\<^verbatim>\<open>DELETE /api/tasks/:id\<close>.\<close>

definition tasks_delete_try :: "plan \<Rightarrow> string \<Rightarrow> response act" where
  "tasks_delete_try fp i =
     bnd (rd InSession (findById_tasks i)) (\<lambda>found.
     case found of
       None \<Rightarrow> bnd abortTransaction (\<lambda>_. ret (json 404 ''Task not found'' Empty))
     | Some t \<Rightarrow>
         bnd (if assignedUser t \<noteq> [] then
                wr fp InSession (updateOne_user (assignedUser t)
                  (\<lambda>u. u\<lparr>pendingTasks := pull (tid t) (pendingTasks u)\<rparr>))
              else ret ()) (\<lambda>_.
         bnd (wr fp InSession (deleteOne_task (tid t))) (\<lambda>_.
         bnd (commitTransaction fp) (\<lambda>_.
         ret (json 204 [] NoBody)))))"

definition tasks_delete_catch :: "err \<Rightarrow> response" where
  "tasks_delete_catch e =
     (if e = CastError then json 404 ''Task not found'' Empty
      else json 500 ''Server error'' Empty)"

definition tasks_delete :: "plan \<Rightarrow> string \<Rightarrow> db \<Rightarrow> response option \<times> db" where
  "tasks_delete fp i d =
     (case tasks_delete_try fp i (startTransaction d) of
        (Inr r, s) \<Rightarrow> (Some r, committed s)
      | (Inl e, s) \<Rightarrow>
          (case abortTransaction s of
             (Inr _, s') \<Rightarrow> (Some (tasks_delete_catch e), committed s')
           | (Inl _, s') \<Rightarrow> (None, committed s')))"

section \<open>Reading: lookup by identifier and listing\<close>

text \<open>
  A JSON query parameter is absent, present but not JSON, or parsed; a parsed value
  that is falsy (such as \<^verbatim>\<open>null\<close>) is \<open>Parsed None\<close>. A filter is the predicate it
  denotes, a sort specification the key it orders by, a projection the function on
  documents it denotes.
\<close>

datatype 'a qparam = Absent | Invalid | Parsed "'a option"

definition parseJSONQueryParam :: "'a qparam \<Rightarrow> 'a qparam \<Rightarrow> err + 'a option" where
  "parseJSONQueryParam primary alias =
     (case (case primary of Absent \<Rightarrow> alias | _ \<Rightarrow> primary) of
        Absent \<Rightarrow> Inr None
      | Invalid \<Rightarrow> Inl BadJSON
      | Parsed v \<Rightarrow> Inr v)"









text \<open>\<^verbatim>\<open>GET /api/users/:id\<close> and \<^verbatim>\<open>GET /api/tasks/:id\<close>.\<close>

definition users_get :: "(user \<Rightarrow> user) qparam \<Rightarrow> (user \<Rightarrow> user) qparam \<Rightarrow> string \<Rightarrow> db \<Rightarrow> response" where
  "users_get sel flt i d =
     (case parseJSONQueryParam sel flt of
        Inl e \<Rightarrow> json 400 ''Invalid select JSON'' Empty
      | Inr p \<Rightarrow>
          (case findById_users i d of
             Inl e \<Rightarrow>
               (if e = CastError then json 404 ''User not found'' Empty
                else if e = BadJSON then json 400 ''Invalid select JSON'' Empty
                else json 500 ''Server error'' Empty)
           | Inr None \<Rightarrow> json 404 ''User not found'' Empty
           | Inr (Some u) \<Rightarrow>
               json 200 ''OK'' (UserDoc (case p of None \<Rightarrow> u | Some f \<Rightarrow> f u))))"

definition tasks_get :: "(task \<Rightarrow> task) qparam \<Rightarrow> (task \<Rightarrow> task) qparam \<Rightarrow> string \<Rightarrow> db \<Rightarrow> response" where
  "tasks_get sel flt i d =
     (case parseJSONQueryParam sel flt of
        Inl e \<Rightarrow> json 400 ''Invalid select JSON'' Empty
      | Inr p \<Rightarrow>
          (case findById_tasks i d of
             Inl e \<Rightarrow>
               (if e = CastError then json 404 ''Task not found'' Empty
                else if e = BadJSON then json 400 ''Invalid select JSON'' Empty
                else json 500 ''Server error'' Empty)
           | Inr None \<Rightarrow> json 404 ''Task not found'' Empty
           | Inr (Some t) \<Rightarrow>
               json 200 ''OK'' (TaskDoc (case p of None \<Rightarrow> t | Some f \<Rightarrow> f t))))"

section \<open>The router as one function\<close>

datatype request =
    UsersPost string nat user_body
  | UsersPut string user_body
  | UsersDelete string
  | TasksPost string nat task_body
  | TasksPut string task_body
  | TasksDelete string

fun handle_try :: "plan \<Rightarrow> request \<Rightarrow> response act" where
  "handle_try fp (UsersPost nid now b) = users_post_try fp nid now b"
| "handle_try fp (UsersPut i b) = users_put_try fp i b"
| "handle_try fp (UsersDelete i) = users_delete_try fp i"
| "handle_try fp (TasksPost nid now b) = tasks_post_try fp nid now b"
| "handle_try fp (TasksPut i b) = tasks_put_try fp i b"
| "handle_try fp (TasksDelete i) = tasks_delete_try fp i"

fun handle :: "plan \<Rightarrow> request \<Rightarrow> db \<Rightarrow> response option \<times> db" where
  "handle fp (UsersPost nid now b) d = users_post fp nid now b d"
| "handle fp (UsersPut i b) d = users_put fp i b d"
| "handle fp (UsersDelete i) d = users_delete fp i d"
| "handle fp (TasksPost nid now b) d = tasks_post fp nid now b d"
| "handle fp (TasksPut i b) d = tasks_put fp i b d"
| "handle fp (TasksDelete i) d = tasks_delete fp i d"

section \<open>The invariants of the data model\<close>

text \<open>I1: the assignee of a task is empty or the identifier of a stored user.\<close>

definition I1 :: "db \<Rightarrow> bool" where
  "I1 d = list_all (\<lambda>t. assignedUser t = [] \<or> list_ex (\<lambda>u. uid u = assignedUser t) (users d))
            (tasks d)"

text \<open>The same for the tasks that are not completed.\<close>

definition I1_open :: "db \<Rightarrow> bool" where
  "I1_open d = list_all (\<lambda>t. completed t \<or> assignedUser t = [] \<or>
                 list_ex (\<lambda>u. uid u = assignedUser t) (users d)) (tasks d)"

text \<open>
  I2: a task is in the pending list of a user exactly when it is assigned to that user
  and not completed.
\<close>

definition I2 :: "db \<Rightarrow> bool" where
  "I2 d = list_all (\<lambda>t. list_all (\<lambda>u.
             (tid t \<in> set (pendingTasks u)) = (assignedUser t = uid u \<and> \<not> completed t))
             (users d)) (tasks d)"

text \<open>
  A task request names its assignee in printed form when the string, if it is an
  identifier at all, is the lower-case one.
\<close>

definition printed_ref :: "string option \<Rightarrow> bool" where
  "printed_ref a = (case cast_oid (str_or_empty a) of None \<Rightarrow> True | Some k \<Rightarrow> k = str_or_empty a)"

fun printed_request :: "request \<Rightarrow> bool" where
  "printed_request (TasksPost nid now b) = printed_ref (tb_assignedUser b)"
| "printed_request (TasksPut i b) = printed_ref (tb_assignedUser b)"
| "printed_request _ = True"

text \<open>
  The databases that requests with printed assignees build from the empty one, whatever
  writes the store makes fail.
\<close>

inductive reachable :: "db \<Rightarrow> bool" where
  init: "reachable empty_db"
| step: "reachable d \<Longrightarrow> printed_request rq \<Longrightarrow> reachable (snd (handle fp rq d))"

section \<open>Example data\<close>

definition ann_id :: string where
  "ann_id = ''aaaaaaaaaaaaaaaaaaaaaaaa''"

definition ann_id_upper :: string where
  "ann_id_upper = ''AAAAAAAAAAAAAAAAAAAAAAAA''"

definition bob_id :: string where
  "bob_id = ''bbbbbbbbbbbbbbbbbbbbbbbb''"

definition task1_id :: string where
  "task1_id = ''111111111111111111111111''"

definition user_req :: "string \<Rightarrow> string \<Rightarrow> string list \<Rightarrow> user_body" where
  "user_req n e p =
     \<lparr>b_name = Some n, b_email = Some e, b_pendingTasks = Some p, b_dateCreated = Some 999\<rparr>"

definition task_req :: "string \<Rightarrow> bool \<Rightarrow> task_body" where
  "task_req a c =
     \<lparr>tb_name = Some ''T1'', tb_description = None, tb_deadline = Some 5,
      tb_assignedUser = Some a, tb_assignedUserName = None, tb_completed = Some (JBool c),
      tb_dateCreated = Some 999\<rparr>"

text \<open>Ann alone; Ann with a pending task; Ann with a completed task.\<close>

definition db_ann :: db where
  "db_ann = snd (users_post no_faults ann_id 1 (user_req ''Ann'' ''ann@x.com'' []) empty_db)"

definition db_pending :: db where
  "db_pending = snd (tasks_post no_faults task1_id 2 (task_req ann_id False) db_ann)"

definition db_done :: db where
  "db_done = snd (tasks_post no_faults task1_id 2 (task_req ann_id True) db_ann)"

definition fail_at :: "nat \<Rightarrow> err \<Rightarrow> plan" where
  "fail_at n e = (\<lambda>k. if k = n then Some e else None)"

definition db_two :: db where
  "db_two = snd (users_post no_faults bob_id 3 (user_req ''Bob'' ''bob@x.com'' []) db_pending)"

definition db_upper :: db where
  "db_upper = snd (tasks_post no_faults task1_id 2 (task_req ann_id_upper False) db_ann)"








section \<open>The committed effect of a request\<close>

text \<open>
  What a request that succeeds has written when it commits, as a function of the
  database it found: the writes of the handler in their order, without the session and
  without the checks on the request body. \<open>handle_trace\<close> below relates the
  handlers to it.
\<close>

definition sbind :: "err + 'a \<Rightarrow> ('a \<Rightarrow> err + 'b) \<Rightarrow> err + 'b" where
  "sbind m f = (case m of Inl e \<Rightarrow> Inl e | Inr x \<Rightarrow> f x)"

definition found :: "err + 'a option \<Rightarrow> err + 'a" where
  "found r = (case r of Inr (Some x) \<Rightarrow> Inr x | Inr None \<Rightarrow> Inl TypeError | Inl e \<Rightarrow> Inl e)"

definition new_user :: "string \<Rightarrow> nat \<Rightarrow> user_body \<Rightarrow> user" where
  "new_user nid now b = \<lparr>uid = nid, uname = str_or_empty (b_name b),
      email = normalize_email (str_or_empty (b_email b)),
      pendingTasks = (case b_pendingTasks b of None \<Rightarrow> [] | Some l \<Rightarrow> l), udateCreated = now\<rparr>"

definition valid_of :: "string list \<Rightarrow> db \<Rightarrow> err + string list" where
  "valid_of pend d = (if pend \<noteq> [] then find_pending_ids pend d else Inr [])"

definition take_over :: "string \<Rightarrow> string \<Rightarrow> string list \<Rightarrow> db \<Rightarrow> err + db" where
  "take_over k n valid d =
     sbind (updateMany_tasks (\<lambda>t. tid t \<in> set valid) (assign k n) d) (\<lambda>d2.
     updateMany_users (\<lambda>u. uid u \<noteq> k \<and> (\<exists>x \<in> set (pendingTasks u). x \<in> set valid))
                     (\<lambda>u. u\<lparr>pendingTasks := pull_in valid (pendingTasks u)\<rparr>) d2)"

definition users_post_effect :: "string \<Rightarrow> nat \<Rightarrow> user_body \<Rightarrow> db \<Rightarrow> err + db" where
  "users_post_effect nid now b d =
     sbind (create_user (new_user nid now b) d) (\<lambda>d1.
     sbind (valid_of (pendingTasks (new_user nid now b)) d1) (\<lambda>valid.
     if valid \<noteq> [] then
       sbind (take_over nid (str_or_empty (b_name b)) valid d1) (\<lambda>d3.
       updateOne_user nid (\<lambda>u. u\<lparr>pendingTasks := valid\<rparr>) d3)
     else updateOne_user nid (\<lambda>u. u\<lparr>pendingTasks := []\<rparr>) d1))"

definition users_put_effect :: "string \<Rightarrow> user_body \<Rightarrow> db \<Rightarrow> err + db" where
  "users_put_effect i b d =
     sbind (found (findById_users i d)) (\<lambda>user.
          sbind (updateMany_tasks (\<lambda>t. assignedUser t = uid user \<and> \<not> completed t) unassign d) (\<lambda>d1.
          sbind (valid_of (case b_pendingTasks b of None \<Rightarrow> [] | Some l \<Rightarrow> l) d1) (\<lambda>valid.
          sbind (if valid \<noteq> [] then take_over (uid user) (str_or_empty (b_name b)) valid d1
                 else Inr d1) (\<lambda>d2.
          overwrite_user i (str_or_empty (b_name b)) (str_or_empty (b_email b)) valid
            (udateCreated user) d2))))"

definition users_delete_effect :: "string \<Rightarrow> db \<Rightarrow> err + db" where
  "users_delete_effect i d =
     sbind (found (findById_users i d)) (\<lambda>u.
          sbind (updateMany_tasks (\<lambda>t. assignedUser t = uid u \<and> \<not> completed t) unassign d)
            (deleteOne_user (uid u)))"

definition resolve_pure :: "string \<Rightarrow> db \<Rightarrow> err + string \<times> string" where
  "resolve_pure a d =
     (if a \<noteq> [] then
        (case findById_users a d of
           Inl e \<Rightarrow> Inl e
         | Inr None \<Rightarrow> Inr ([], ''unassigned'')
         | Inr (Some v) \<Rightarrow> Inr (a, uname v))
      else Inr ([], ''unassigned''))"

definition new_task :: "string \<Rightarrow> nat \<Rightarrow> task_body \<Rightarrow> string \<Rightarrow> string \<Rightarrow> task" where
  "new_task nid now b na nn = \<lparr>tid = nid, tname = str_or_empty (tb_name b),
                 description = str_or_empty (tb_description b),
                 deadline = (case tb_deadline b of None \<Rightarrow> 0 | Some x \<Rightarrow> x),
                 completed = toBoolean (tb_completed b) False,
                 assignedUser = na,
                 assignedUserName = (if na \<noteq> [] then nn else ''unassigned''),
                 tdateCreated = now\<rparr>"

definition tasks_post_effect :: "string \<Rightarrow> nat \<Rightarrow> task_body \<Rightarrow> db \<Rightarrow> err + db" where
  "tasks_post_effect nid now b d =
     sbind (resolve_pure (str_or_empty (tb_assignedUser b)) d) (\<lambda>(na, nn).
     sbind (create_task (new_task nid now b na nn) d) (\<lambda>d1.
     if na \<noteq> [] \<and> \<not> toBoolean (tb_completed b) False
     then updateOne_user na (\<lambda>u. u\<lparr>pendingTasks := addToSet nid (pendingTasks u)\<rparr>) d1
     else Inr d1))"

definition tasks_put_effect :: "string \<Rightarrow> task_body \<Rightarrow> db \<Rightarrow> err + db" where
  "tasks_put_effect i b d =
     sbind (found (findById_tasks i d)) (\<lambda>cur.
          sbind (resolve_pure (str_or_empty (tb_assignedUser b)) d) (\<lambda>(na, nn).
          sbind (overwrite_task i (str_or_empty (tb_name b)) (str_or_empty (tb_description b))
                   (case tb_deadline b of None \<Rightarrow> 0 | Some x \<Rightarrow> x)
                   (toBoolean (tb_completed b) False) na
                   (if na \<noteq> [] then nn else ''unassigned'')
                   (tdateCreated cur) d) (\<lambda>d1.
          sbind (found (findById_tasks i d1)) (\<lambda>updated.
               sbind (if assignedUser cur \<noteq> [] \<and> assignedUser cur \<noteq> na
                      then updateOne_user (assignedUser cur)
                             (\<lambda>u. u\<lparr>pendingTasks := pull (tid updated) (pendingTasks u)\<rparr>) d1
                      else Inr d1) (\<lambda>d2.
               if na \<noteq> [] then
                 (if toBoolean (tb_completed b) False
                  then updateOne_user na
                         (\<lambda>u. u\<lparr>pendingTasks := pull (tid updated) (pendingTasks u)\<rparr>) d2
                  else updateOne_user na
                         (\<lambda>u. u\<lparr>pendingTasks := addToSet (tid updated) (pendingTasks u)\<rparr>) d2)
               else Inr d2)))))"

definition tasks_delete_effect :: "string \<Rightarrow> db \<Rightarrow> err + db" where
  "tasks_delete_effect i d =
     sbind (found (findById_tasks i d)) (\<lambda>t.
          sbind (if assignedUser t \<noteq> []
                 then updateOne_user (assignedUser t)
                        (\<lambda>u. u\<lparr>pendingTasks := pull (tid t) (pendingTasks u)\<rparr>) d
                 else Inr d)
            (deleteOne_task (tid t)))"

fun effect :: "request \<Rightarrow> db \<Rightarrow> err + db" where
  "effect (UsersPost nid now b) d = users_post_effect nid now b d"
| "effect (UsersPut i b) d = users_put_effect i b d"
| "effect (UsersDelete i) d = users_delete_effect i d"
| "effect (TasksPost nid now b) d = tasks_post_effect nid now b d"
| "effect (TasksPut i b) d = tasks_put_effect i b d"
| "effect (TasksDelete i) d = tasks_delete_effect i d"

text \<open>The identifiers and creation times of a collection, in stored order.\<close>

definition ustamps :: "db \<Rightarrow> (string \<times> nat) list" where
  "ustamps d = map (\<lambda>u. (uid u, udateCreated u)) (users d)"

definition tstamps :: "db \<Rightarrow> (string \<times> nat) list" where
  "tstamps d = map (\<lambda>t. (tid t, tdateCreated t)) (tasks d)"

section \<open>Predicates on transaction bodies\<close>

text \<open>
  \<open>keeps m\<close>: the body touches neither the committed data nor the state of the
  transaction. \<open>atomic m\<close>: when the body raises, the committed data is what it was, and
  a transaction that was active has not been aborted. \<open>clean fp m\<close>: when the body
  returns, none of the writes it issued was one that the plan makes fail.
\<close>

definition keeps :: "'a act \<Rightarrow> bool" where
  "keeps m \<longleftrightarrow> (\<forall>s. committed (snd (m s)) = committed s \<and> txn (snd (m s)) = txn s)"

definition atomic :: "'a act \<Rightarrow> bool" where
  "atomic m \<longleftrightarrow> (\<forall>s e s'. m s = (Inl e, s') \<longrightarrow>
      committed s' = committed s \<and> (txn s = Active \<longrightarrow> txn s' \<noteq> Aborted))"

definition clean :: "plan \<Rightarrow> 'a act \<Rightarrow> bool" where
  "clean fp m \<longleftrightarrow> (\<forall>s x s'. m s = (Inr x, s') \<longrightarrow>
      nwrites s \<le> nwrites s' \<and> (\<forall>k. nwrites s \<le> k \<and> k < nwrites s' \<longrightarrow> fp k = None))"

section \<open>Shapes of the committed effects\<close>

text \<open>
  The state in which the stored references agree: I2, identifiers that are distinct
  and, for the users, in printed form, open tasks that name stored users, and pending
  lists that name stored tasks.
\<close>

definition wf :: "db \<Rightarrow> bool" where
  "wf d \<longleftrightarrow> I2 d \<and> distinct (map uid (users d)) \<and> distinct (map tid (tasks d))
      \<and> list_all (\<lambda>u. cast_oid (uid u) = Some (uid u)) (users d)
      \<and> I1_open d
      \<and> list_all (\<lambda>u. list_all (\<lambda>x. x \<in> tid ` set (tasks d)) (pendingTasks u)) (users d)"

text \<open>
  The document that Replace Task writes over a task.
\<close>

definition put_task :: "task_body \<Rightarrow> string \<Rightarrow> string \<Rightarrow> nat \<Rightarrow> task \<Rightarrow> task" where
  "put_task b na nn dc t = \<lparr>tid = tid t, tname = str_or_empty (tb_name b),
      description = str_or_empty (tb_description b),
      deadline = (case tb_deadline b of None \<Rightarrow> 0 | Some x \<Rightarrow> x),
      completed = toBoolean (tb_completed b) False, assignedUser = na,
      assignedUserName = (if na \<noteq> [] then nn else ''unassigned''), tdateCreated = dc\<rparr>"

text \<open>
  What Replace Task does to the previous assignee of the task.
\<close>

definition put_prev :: "string \<Rightarrow> string \<Rightarrow> string \<Rightarrow> user \<Rightarrow> user" where
  "put_prev prev na k u = (if prev \<noteq> [] \<and> prev \<noteq> na \<and> cast_oid prev = Some (uid u)
                           then u\<lparr>pendingTasks := pull k (pendingTasks u)\<rparr> else u)"

text \<open>
  What Replace Task does to the new assignee of the task.
\<close>

definition put_new :: "bool \<Rightarrow> string \<Rightarrow> string \<Rightarrow> user \<Rightarrow> user" where
  "put_new c na k u = (if na \<noteq> [] \<and> na = uid u
                       then (if c then u\<lparr>pendingTasks := pull k (pendingTasks u)\<rparr>
                             else u\<lparr>pendingTasks := addToSet k (pendingTasks u)\<rparr>)
                       else u)"

text \<open>
  What taking over a list of tasks does to a task.
\<close>

definition claim_task :: "string \<Rightarrow> string \<Rightarrow> string list \<Rightarrow> task \<Rightarrow> task" where
  "claim_task k n valid t = (if tid t \<in> set valid then assign k n t else t)"

text \<open>
  What taking over a list of tasks does to the other users.
\<close>

definition yield_user :: "string \<Rightarrow> string list \<Rightarrow> user \<Rightarrow> user" where
  "yield_user k valid u = (if uid u \<noteq> k then u\<lparr>pendingTasks := pull_in valid (pendingTasks u)\<rparr> else u)"

text \<open>
  What Replace User does first to the open tasks of the user.
\<close>

definition release_task :: "string \<Rightarrow> task \<Rightarrow> task" where
  "release_task k t = (if assignedUser t = k \<and> \<not> completed t then unassign t else t)"

text \<open>
  What Replace User does to the stored users.
\<close>

definition put_user :: "string \<Rightarrow> string \<Rightarrow> string \<Rightarrow> string list \<Rightarrow> nat \<Rightarrow> user \<Rightarrow> user" where
  "put_user k n e valid dc u =
     (if uid u = k then \<lparr>uid = uid u, uname = n, email = normalize_email e,
                          pendingTasks = valid, udateCreated = dc\<rparr>
      else u\<lparr>pendingTasks := pull_in valid (pendingTasks u)\<rparr>)"

text \<open>
  What Create User does to the stored users, the new one among them.
\<close>

definition post_user :: "string \<Rightarrow> string list \<Rightarrow> user \<Rightarrow> user" where
  "post_user nid valid u =
     (if nid = uid u then u\<lparr>pendingTasks := valid\<rparr>
      else u\<lparr>pendingTasks := pull_in valid (pendingTasks u)\<rparr>)"

text \<open>
  A request with identifiers in printed form: the identifier the store generates for a
  new user is a printed one, and a task request names its assignee in printed form.
\<close>

fun canonical_request :: "request \<Rightarrow> bool" where
  "canonical_request (UsersPost nid now b) = (cast_oid nid = Some nid)"
| "canonical_request (TasksPost nid now b) = printed_ref (tb_assignedUser b)"
| "canonical_request (TasksPut i b) = printed_ref (tb_assignedUser b)"
| "canonical_request _ = True"

text \<open>
  The databases that such requests build from the empty one, whatever writes the store
  makes fail.
\<close>

inductive canonical :: "db \<Rightarrow> bool" where
  init: "canonical empty_db"
| step: "canonical d \<Longrightarrow> canonical_request rq \<Longrightarrow> canonical (snd (handle fp rq d))"

section \<open>The example data, evaluated\<close>

lemma example_states:
  "db_ann = \<lparr>users = [\<lparr>uid = ann_id, uname = ''Ann'', email = ''ann@x.com'',
                        pendingTasks = [], udateCreated = 1\<rparr>], tasks = []\<rparr>"
  "db_pending = \<lparr>users = [\<lparr>uid = ann_id, uname = ''Ann'', email = ''ann@x.com'',
                        pendingTasks = [task1_id], udateCreated = 1\<rparr>],
                 tasks = [\<lparr>tid = task1_id, tname = ''T1'', description = [], deadline = 5,
                        completed = False, assignedUser = ann_id, assignedUserName = ''Ann'',
                        tdateCreated = 2\<rparr>]\<rparr>"
  "db_done = \<lparr>users = [\<lparr>uid = ann_id, uname = ''Ann'', email = ''ann@x.com'',
                        pendingTasks = [], udateCreated = 1\<rparr>],
              tasks = [\<lparr>tid = task1_id, tname = ''T1'', description = [], deadline = 5,
                        completed = True, assignedUser = ann_id, assignedUserName = ''Ann'',
                        tdateCreated = 2\<rparr>]\<rparr>"
  by code_simp+

section \<open>Malformed identifiers\<close>

text \<open>
  C8, as the claim states it, fails: a lookup by a string that is no identifier is
  answered with status 404 and the not-found message, not with the status 400 of a
  validation failure.
\<close>

theorem malformed_id_counterexample:
  "users_get Absent Absent ''not-an-id'' db_ann = json 404 ''User not found'' Empty
   \<and> status (users_get Absent Absent ''not-an-id'' db_ann) \<noteq> 400"
  by code_simp

text \<open>
  C8, amended: a replace, delete or get whose identifier is malformed is answered as
  not found (status 404); replace and delete raise at their first read, before any
  write is issued, and the database is unchanged. (A get is answered so when its
  projection parameter parses.)
\<close>

theorem malformed_id_not_found:
  assumes "cast_oid i = None"
  shows "users_put fp i ub d = (Some (json 404 ''User not found'' Empty), d)
       \<and> users_delete fp i d = (Some (json 404 ''User not found'' Empty), d)
       \<and> tasks_put fp i tb d = (Some (json 404 ''Task not found'' Empty), d)
       \<and> tasks_delete fp i d = (Some (json 404 ''Task not found'' Empty), d)
       \<and> nwrites (snd (users_put_try fp i ub (startTransaction d))) = 0
       \<and> nwrites (snd (users_delete_try fp i (startTransaction d))) = 0
       \<and> nwrites (snd (tasks_put_try fp i tb (startTransaction d))) = 0
       \<and> nwrites (snd (tasks_delete_try fp i (startTransaction d))) = 0
       \<and> (parseJSONQueryParam usel uflt \<noteq> Inl BadJSON \<longrightarrow>
            users_get usel uflt i d = json 404 ''User not found'' Empty)
       \<and> (parseJSONQueryParam tsel tflt \<noteq> Inl BadJSON \<longrightarrow>
            tasks_get tsel tflt i d = json 404 ''Task not found'' Empty)"
proof -
  have r: "rd InSession (findById_users i) (startTransaction d) = (Inl CastError, startTransaction d)"
          "rd InSession (findById_tasks i) (startTransaction d) = (Inl CastError, startTransaction d)"
    using assms by (simp_all add: rd_def findById_users_def findById_tasks_def)
  have n: "nwrites (startTransaction d) = 0" "committed (startTransaction d) = d"
    "txn (startTransaction d) = Active"
    by (simp_all add: startTransaction_def)
  have 1: "users_put_try fp i ub (startTransaction d) = (Inl CastError, startTransaction d)"
    by (simp add: users_put_try_def bnd_def r)
  have 2: "users_delete_try fp i (startTransaction d) = (Inl CastError, startTransaction d)"
    by (simp add: users_delete_try_def bnd_def r)
  have 3: "tasks_put_try fp i tb (startTransaction d) = (Inl CastError, startTransaction d)"
    by (simp add: tasks_put_try_def bnd_def r)
  have 4: "tasks_delete_try fp i (startTransaction d) = (Inl CastError, startTransaction d)"
    by (simp add: tasks_delete_try_def bnd_def r)
  have 5: "parseJSONQueryParam usel uflt \<noteq> Inl BadJSON \<longrightarrow>
            users_get usel uflt i d = json 404 ''User not found'' Empty"
    using assms by (auto simp: users_get_def findById_users_def parseJSONQueryParam_def
        split: qparam.splits sum.splits)
  have 6: "parseJSONQueryParam tsel tflt \<noteq> Inl BadJSON \<longrightarrow>
            tasks_get tsel tflt i d = json 404 ''Task not found'' Empty"
    using assms by (auto simp: tasks_get_def findById_tasks_def parseJSONQueryParam_def
        split: qparam.splits sum.splits)
  show ?thesis
    by (simp add: users_put_def users_delete_def tasks_put_def tasks_delete_def 1 2 3 4 5 6 n
        abortTransaction_def users_put_catch_def users_delete_catch_def tasks_put_catch_def
        tasks_delete_catch_def)
qed

theorem malformed_id_not_found_witness:
  "cast_oid ''not-an-id'' = None
   \<and> users_put no_faults ''not-an-id'' (user_req ''Ann'' ''ann@x.com'' []) db_pending
       = (Some (json 404 ''User not found'' Empty), db_pending)
   \<and> tasks_delete no_faults ''not-an-id'' db_pending = (Some (json 404 ''Task not found'' Empty), db_pending)
   \<and> users_get Absent Absent ''not-an-id'' db_pending = json 404 ''User not found'' Empty"
proof -
  have c: "cast_oid ''not-an-id'' = None"
    by code_simp
  have p: "parseJSONQueryParam (Absent :: (user \<Rightarrow> user) qparam) Absent \<noteq> Inl BadJSON"
    by (simp add: parseJSONQueryParam_def)
  show ?thesis
    using c p malformed_id_not_found [OF c, of no_faults "user_req ''Ann'' ''ann@x.com'' []"
        db_pending _ Absent Absent]
    by simp
qed

section \<open>Atomicity\<close>

lemma keeps_ret: "keeps (ret x)"
  by (simp add: keeps_def ret_def)

lemma keeps_throw: "keeps (throw e)"
  by (simp add: keeps_def throw_def)

lemma keeps_rd: "keeps (rd so q)"
  by (simp add: keeps_def rd_def split: sum.splits)

lemma keeps_wr: "keeps (wr fp InSession w)"
  by (simp add: keeps_def wr_def Let_def split: sum.splits option.splits)

lemma keeps_bnd: "keeps m \<Longrightarrow> (\<And>x. keeps (f x)) \<Longrightarrow> keeps (bnd m f)"
  unfolding keeps_def bnd_def
proof
  fix s
  assume m: "\<forall>s. committed (snd (m s)) = committed s \<and> txn (snd (m s)) = txn s"
    and f: "\<And>x. \<forall>s. committed (snd (f x s)) = committed s \<and> txn (snd (f x s)) = txn s"
  let ?r = "case m s of (Inl e, s') \<Rightarrow> (Inl e, s') | (Inr x, s') \<Rightarrow> f x s'"
  show "committed (snd ?r) = committed s \<and> txn (snd ?r) = txn s"
  proof (cases "m s")
    case (Pair r s')
    then have c: "committed s' = committed s" "txn s' = txn s"
      using m [rule_format, of s] by simp_all
    show ?thesis
    proof (cases r)
      case (Inl e)
      with Pair c show ?thesis by simp
    next
      case (Inr x)
      with Pair c f [of x, rule_format, of s'] show ?thesis by simp
    qed
  qed
qed

lemma keeps_if: "(c \<Longrightarrow> keeps a) \<Longrightarrow> (\<not> c \<Longrightarrow> keeps b) \<Longrightarrow> keeps (if c then a else b)"
  by simp

lemma keeps_resolve: "keeps (resolve_assignee a)"
  unfolding resolve_assignee_def by (intro keeps_if keeps_bnd keeps_rd keeps_ret)

lemma atomic_keeps: "keeps m \<Longrightarrow> atomic m"
  unfolding keeps_def atomic_def
proof (intro allI impI)
  fix s e s'
  assume k: "\<forall>s. committed (snd (m s)) = committed s \<and> txn (snd (m s)) = txn s"
    and r: "m s = (Inl e, s')"
  from k [rule_format, of s] r
  show "committed s' = committed s \<and> (txn s = Active \<longrightarrow> txn s' \<noteq> Aborted)"
    by simp
qed

lemma atomic_bnd: "keeps m \<Longrightarrow> (\<And>x. atomic (f x)) \<Longrightarrow> atomic (bnd m f)"
proof -
  assume k: "keeps m" and a: "\<And>x. atomic (f x)"
  show "atomic (bnd m f)"
    unfolding atomic_def
  proof (intro allI impI)
    fix s e s'
    assume run: "bnd m f s = (Inl e, s')"
    obtain r s1 where m: "m s = (r, s1)"
      by (cases "m s")
    with k have c: "committed s1 = committed s" "txn s1 = txn s"
      unfolding keeps_def by (metis snd_conv)+
    show "committed s' = committed s \<and> (txn s = Active \<longrightarrow> txn s' \<noteq> Aborted)"
    proof (cases r)
      case (Inl e1)
      with run m c show ?thesis by (simp add: bnd_def)
    next
      case (Inr x)
      with run m have "f x s1 = (Inl e, s')" by (simp add: bnd_def)
      with a [of x] c show ?thesis unfolding atomic_def by metis
    qed
  qed
qed

lemma atomic_commit: "atomic (bnd (commitTransaction fp) (\<lambda>_. ret r))"
  unfolding atomic_def bnd_def commitTransaction_def ret_def
  by (auto split: option.splits)

lemma atomic_if: "(c \<Longrightarrow> atomic a) \<Longrightarrow> (\<not> c \<Longrightarrow> atomic b) \<Longrightarrow> atomic (if c then a else b)"
  by simp

lemma atomic_option: "atomic a \<Longrightarrow> (\<And>x. atomic (f x)) \<Longrightarrow> atomic (case v of None \<Rightarrow> a | Some x \<Rightarrow> f x)"
  by (cases v) simp_all

lemma atomic_prod: "(\<And>a b. atomic (f a b)) \<Longrightarrow> atomic (case p of (a, b) \<Rightarrow> f a b)"
  by (cases p) simp

lemma atomic_abort_reply: "atomic (bnd abortTransaction (\<lambda>_. ret r))"
  unfolding atomic_def bnd_def abortTransaction_def ret_def
  by (auto split: if_splits)

lemmas atomic_steps = atomic_commit atomic_abort_reply atomic_bnd atomic_if atomic_option
  atomic_prod keeps_bnd keeps_if keeps_rd keeps_wr keeps_ret keeps_throw keeps_resolve
  atomic_keeps [OF keeps_throw]

lemma atomic_users_post: "atomic (users_post_try fp nid now b)"
  unfolding users_post_try_def Let_def by (intro atomic_steps)

lemma atomic_users_put: "atomic (users_put_try fp i b)"
  unfolding users_put_try_def Let_def by (intro atomic_steps)

lemma atomic_users_delete: "atomic (users_delete_try fp i)"
  unfolding users_delete_try_def Let_def by (intro atomic_steps)

lemma atomic_tasks_post: "atomic (tasks_post_try fp nid now b)"
  unfolding tasks_post_try_def Let_def by (intro atomic_steps)

lemma atomic_tasks_put: "atomic (tasks_put_try fp i b)"
  unfolding tasks_put_try_def Let_def by (intro atomic_steps)

lemma atomic_tasks_delete: "atomic (tasks_delete_try fp i)"
  unfolding tasks_delete_try_def Let_def by (intro atomic_steps)

lemma atomic_handle: "atomic (handle_try fp rq)"
  by (cases rq) (simp_all add: atomic_users_post atomic_users_put atomic_users_delete
      atomic_tasks_post atomic_tasks_put atomic_tasks_delete)

lemma handle_raise:
  assumes run: "handle_try fp rq (startTransaction d) = (Inl e, s')"
  shows "snd (handle fp rq d) = d \<and>
         (case fst (handle fp rq d) of
            None \<Rightarrow> txn s' = Committed
          | Some r \<Rightarrow> txn s' = Active \<and> 400 \<le> status r)"
proof -
  have "committed s' = committed (startTransaction d) \<and>
        (txn (startTransaction d) = Active \<longrightarrow> txn s' \<noteq> Aborted)"
    using atomic_handle [of fp rq] run unfolding atomic_def by blast
  then have c: "committed s' = d" and "txn s' \<noteq> Aborted"
    by (simp_all add: startTransaction_def)
  then have t: "txn s' = Active \<or> txn s' = Committed"
    by (cases "txn s'") simp_all
  show ?thesis
  proof (cases rq)
    case (UsersPost nid now b)
    with run c t show ?thesis
      by (auto simp: users_post_def abortTransaction_def users_post_catch_def json_def)
  next
    case (UsersPut i b)
    with run c t show ?thesis
      by (auto simp: users_put_def abortTransaction_def users_put_catch_def json_def)
  next
    case (UsersDelete i)
    with run c t show ?thesis
      by (auto simp: users_delete_def abortTransaction_def users_delete_catch_def json_def)
  next
    case (TasksPost nid now b)
    with run c t show ?thesis
      by (auto simp: tasks_post_def abortTransaction_def tasks_post_catch_def json_def)
  next
    case (TasksPut i b)
    with run c t show ?thesis
      by (auto simp: tasks_put_def abortTransaction_def tasks_put_catch_def json_def)
  next
    case (TasksDelete i)
    with run c t show ?thesis
      by (auto simp: tasks_delete_def abortTransaction_def tasks_delete_catch_def json_def)
  qed
qed

lemma clean_ret: "clean fp (ret x)"
  by (auto simp: clean_def ret_def)

lemma clean_throw: "clean fp (throw e)"
  by (simp add: clean_def throw_def)

lemma clean_abort: "clean fp abortTransaction"
  by (auto simp: clean_def abortTransaction_def split: if_splits)

lemma clean_rd: "clean fp (rd so q)"
  by (auto simp: clean_def rd_def split: sum.splits)

lemma clean_wr: "clean fp (wr fp so w)"
  by (auto simp: clean_def wr_def Let_def less_Suc_eq split: sum.splits option.splits opt.splits)

lemma clean_commit: "clean fp (commitTransaction fp)"
  by (auto simp: clean_def commitTransaction_def less_Suc_eq split: option.splits)

lemma clean_bnd:
  assumes "clean fp m" and "\<And>x. clean fp (f x)"
  shows "clean fp (bnd m f)"
  unfolding clean_def
proof (intro allI impI)
  fix s y s'
  assume run: "bnd m f s = (Inr y, s')"
  then obtain x s1 where m: "m s = (Inr x, s1)" and f: "f x s1 = (Inr y, s')"
    by (auto simp: bnd_def split: prod.splits sum.splits)
  from assms(1) m have 1: "nwrites s \<le> nwrites s1"
    "\<forall>k. nwrites s \<le> k \<and> k < nwrites s1 \<longrightarrow> fp k = None"
    unfolding clean_def by blast+
  from assms(2) [of x] f have 2: "nwrites s1 \<le> nwrites s'"
    "\<forall>k. nwrites s1 \<le> k \<and> k < nwrites s' \<longrightarrow> fp k = None"
    unfolding clean_def by blast+
  show "nwrites s \<le> nwrites s' \<and> (\<forall>k. nwrites s \<le> k \<and> k < nwrites s' \<longrightarrow> fp k = None)"
  proof (intro conjI allI impI)
    show "nwrites s \<le> nwrites s'" using 1(1) 2(1) by simp
  next
    fix k assume k: "nwrites s \<le> k \<and> k < nwrites s'"
    show "fp k = None"
    proof (cases "k < nwrites s1")
      case True
      with k 1(2) show ?thesis by blast
    next
      case False
      with k 2(2) show ?thesis by simp
    qed
  qed
qed

lemma clean_if: "(c \<Longrightarrow> clean fp a) \<Longrightarrow> (\<not> c \<Longrightarrow> clean fp b) \<Longrightarrow> clean fp (if c then a else b)"
  by simp

lemma clean_option:
  "clean fp a \<Longrightarrow> (\<And>x. clean fp (f x)) \<Longrightarrow> clean fp (case v of None \<Rightarrow> a | Some x \<Rightarrow> f x)"
  by (cases v) simp_all

lemma clean_prod: "(\<And>a b. clean fp (f a b)) \<Longrightarrow> clean fp (case p of (a, b) \<Rightarrow> f a b)"
  by (cases p) simp

lemmas clean_steps = clean_bnd clean_if clean_option clean_prod clean_ret clean_throw clean_abort
  clean_rd clean_wr clean_commit

lemma clean_users_post: "clean fp (users_post_try fp nid now b)"
  unfolding users_post_try_def Let_def by (intro clean_steps)

lemma clean_users_put: "clean fp (users_put_try fp i b)"
  unfolding users_put_try_def Let_def by (intro clean_steps)

lemma clean_users_delete: "clean fp (users_delete_try fp i)"
  unfolding users_delete_try_def Let_def by (intro clean_steps)

lemma clean_tasks_post: "clean fp (tasks_post_try fp nid now b)"
  unfolding tasks_post_try_def Let_def resolve_assignee_def by (intro clean_steps)

lemma clean_tasks_put: "clean fp (tasks_put_try fp i b)"
  unfolding tasks_put_try_def Let_def resolve_assignee_def by (intro clean_steps)

lemma clean_tasks_delete: "clean fp (tasks_delete_try fp i)"
  unfolding tasks_delete_try_def Let_def by (intro clean_steps)

lemma clean_handle: "clean fp (handle_try fp rq)"
  by (cases rq) (simp_all add: clean_users_post clean_users_put clean_users_delete
      clean_tasks_post clean_tasks_put clean_tasks_delete)

text \<open>
  C9: when a write that a mutating request issues fails (\<open>k\<close> counts the
  writes of the request, the commit included, and the plan makes write \<open>k\<close> fail),
  the database is the one the request found: neither the primary write nor any
  compensating update is committed. When the failed write comes before the commit, the
  handler answers with an error status. When it is the commit itself, the abort in the
  catch block raises and no response is sent.
\<close>

theorem failed_operation_leaves_no_trace:
  assumes "k < nwrites (snd (handle_try fp rq (startTransaction d)))" and "fp k = Some e"
  shows "snd (handle fp rq d) = d \<and>
         (case fst (handle fp rq d) of
            None \<Rightarrow> txn (snd (handle_try fp rq (startTransaction d))) = Committed
          | Some r \<Rightarrow> txn (snd (handle_try fp rq (startTransaction d))) = Active \<and> 400 \<le> status r)"
proof (cases "handle_try fp rq (startTransaction d)")
  case (Pair res s')
  show ?thesis
  proof (cases res)
    case (Inl e')
    with Pair show ?thesis
      using handle_raise [of fp rq d e' s'] by (simp split: option.splits)
  next
    case (Inr r)
    with Pair clean_handle [of fp rq] have "\<forall>k. 0 \<le> k \<and> k < nwrites s' \<longrightarrow> fp k = None"
      unfolding clean_def by (fastforce simp: startTransaction_def)
    with assms Pair show ?thesis by simp
  qed
qed

theorem failed_operation_leaves_no_trace_witness:
  "1 < nwrites (snd (handle_try (fail_at 1 StoreError) (TasksPut task1_id (task_req bob_id False))
          (startTransaction db_two)))
   \<and> fail_at 1 StoreError 1 = Some StoreError
   \<and> handle (fail_at 1 StoreError) (TasksPut task1_id (task_req bob_id False)) db_two
       = (Some (json 500 ''Server error'' Empty), db_two)
   \<and> 3 < nwrites (snd (handle_try (fail_at 3 StoreError) (TasksPut task1_id (task_req bob_id False))
          (startTransaction db_two)))
   \<and> fail_at 3 StoreError 3 = Some StoreError
   \<and> txn (snd (handle_try (fail_at 3 StoreError) (TasksPut task1_id (task_req bob_id False))
          (startTransaction db_two))) = Committed
   \<and> handle (fail_at 3 StoreError) (TasksPut task1_id (task_req bob_id False)) db_two
       = (None, db_two)"
proof -
  let ?rq = "TasksPut task1_id (task_req bob_id False)"
  have h1: "1 < nwrites (snd (handle_try (fail_at 1 StoreError) ?rq (startTransaction db_two)))"
    by code_simp
  have f1: "fail_at 1 StoreError 1 = Some StoreError"
    by (simp add: fail_at_def)
  have r1: "fst (handle (fail_at 1 StoreError) ?rq db_two) = Some (json 500 ''Server error'' Empty)"
    by code_simp
  have h3: "3 < nwrites (snd (handle_try (fail_at 3 StoreError) ?rq (startTransaction db_two)))"
    by code_simp
  have f3: "fail_at 3 StoreError 3 = Some StoreError"
    by (simp add: fail_at_def)
  have r3: "fst (handle (fail_at 3 StoreError) ?rq db_two) = None"
    by code_simp
  from failed_operation_leaves_no_trace [OF h1 f1] r1
  have 1: "handle (fail_at 1 StoreError) ?rq db_two = (Some (json 500 ''Server error'' Empty), db_two)"
    by (simp add: prod_eq_iff)
  from failed_operation_leaves_no_trace [OF h3 f3] r3
  have 3: "handle (fail_at 3 StoreError) ?rq db_two = (None, db_two)"
    "txn (snd (handle_try (fail_at 3 StoreError) ?rq (startTransaction db_two))) = Committed"
    by (simp_all add: prod_eq_iff)
  from h1 f1 1 h3 f3 3 show ?thesis
    by simp
qed

text \<open>
  In that run the primary write had already been applied to the snapshot when the
  second write failed; without faults the same request moves the task from Ann to Bob.
\<close>

lemma reassignment_example:
  "working (snd (handle_try (fail_at 1 StoreError) (TasksPut task1_id (task_req bob_id False))
                  (startTransaction db_two))) \<noteq> db_two"
  "map pendingTasks (users db_two) = [[task1_id], []]"
  "map pendingTasks (users (snd (handle no_faults (TasksPut task1_id (task_req bob_id False)) db_two)))
     = [[], [task1_id]]"
  by code_simp+

section \<open>References that are not identifiers\<close>

text \<open>
  C5, at a failing input: a task request whose assignee is a string that is no
  identifier is not stored unassigned. The lookup of the assignee raises; create
  answers 500 and replace answers 404 with the message for a missing task, and
  nothing is written.
\<close>

theorem malformed_assignee_fails:
  "tasks_post no_faults task1_id 2 (task_req ''not-an-id'' False) db_ann
     = (Some (json 500 ''Server error'' Empty), db_ann)
   \<and> tasks_put no_faults task1_id (task_req ''not-an-id'' False) db_pending
     = (Some (json 404 ''Task not found'' Empty), db_pending)"
  by code_simp

text \<open>An assignee that is an identifier of no stored user is downgraded, as the claim says.\<close>

lemma unknown_assignee_example:
  "tasks_post no_faults task1_id 2 (task_req bob_id False) db_ann
     = (Some (json 201 ''Task created''
          (TaskDoc \<lparr>tid = task1_id, tname = ''T1'', description = [], deadline = 5,
                    completed = False, assignedUser = [], assignedUserName = ''unassigned'',
                    tdateCreated = 2\<rparr>)),
        db_ann\<lparr>tasks := [\<lparr>tid = task1_id, tname = ''T1'', description = [], deadline = 5,
                    completed = False, assignedUser = [], assignedUserName = ''unassigned'',
                    tdateCreated = 2\<rparr>]\<rparr>)"
  by code_simp

text \<open>
  C6, at a failing input: a pending list with an element that is no identifier is not
  filtered. The query for the valid tasks raises; create answers 500 and replace
  answers 404 with the message for a missing user, and nothing is written.
\<close>

theorem malformed_pending_fails:
  "users_post no_faults bob_id 3 (user_req ''Bob'' ''bob@x.com'' [''not-an-id'']) db_pending
     = (Some (json 500 ''Server error'' Empty), db_pending)
   \<and> users_put no_faults ann_id (user_req ''Ann'' ''ann@x.com'' [''not-an-id'']) db_pending
     = (Some (json 404 ''User not found'' Empty), db_pending)"
  by code_simp

text \<open>
  When every element is an identifier, the query keeps exactly the tasks that exist
  and are not completed.
\<close>

lemma find_pending_ids_set:
  assumes "find_pending_ids ids d = Inr valid"
  shows "\<exists>ks. cast_all ids = Some ks \<and>
           set valid = {k \<in> set ks. \<exists>t \<in> set (tasks d). tid t = k \<and> \<not> completed t}"
  using assms by (auto simp: find_pending_ids_def split: option.splits)

section \<open>Duplicate email\<close>


section \<open>The pending-set invariant\<close>

text \<open>
  C1, at a failing input: Ann's identifier written in upper case is cast to
  Ann's identifier, so the task is created and added to Ann's pending list, but the
  task stores the string as it came. I2 holds before the request and fails after it.
  A later replace of Ann with an empty pending list does not find the task by Ann's
  printed identifier: the task stays assigned and open, and Ann's list is empty.
\<close>

theorem upper_case_assignee_breaks_I2:
  "cast_oid ann_id_upper = Some ann_id
   \<and> map_option status (fst (tasks_post no_faults task1_id 2 (task_req ann_id_upper False) db_ann)) = Some 201
   \<and> I2 db_ann
   \<and> \<not> I2 db_upper
   \<and> map pendingTasks (users db_upper) = [[task1_id]]
   \<and> map assignedUser (tasks db_upper) = [ann_id_upper]
   \<and> map uid (users db_upper) = [ann_id]
   \<and> map_option status (fst (users_put no_faults ann_id (user_req ''Ann'' ''ann@x.com'' []) db_upper)) = Some 200
   \<and> map pendingTasks
        (users (snd (users_put no_faults ann_id (user_req ''Ann'' ''ann@x.com'' []) db_upper))) = [[]]
   \<and> map assignedUser
        (tasks (snd (users_put no_faults ann_id (user_req ''Ann'' ''ann@x.com'' []) db_upper)))
        = [ann_id_upper]
   \<and> map completed
        (tasks (snd (users_put no_faults ann_id (user_req ''Ann'' ''ann@x.com'' []) db_upper)))
        = [False]"
  by code_simp

section \<open>Listing\<close>



section \<open>From the handlers to the committed effect\<close>

text \<open>The steps of a body that returns, read backwards.\<close>

lemma bnd_rdE:
  assumes "bnd (rd InSession q) f s = (Inr r, s')"
  obtains x where "q (working s) = Inr x" "f x s = (Inr r, s')"
  using assms by (auto simp: bnd_def rd_def split: sum.splits)

lemma bnd_wrE:
  assumes "bnd (wr fp InSession w) f s = (Inr r, s')"
  obtains d1 where "w (working s) = Inr d1"
    "f () (s\<lparr>nwrites := Suc (nwrites s), working := d1\<rparr>) = (Inr r, s')"
  using assms by (auto simp: bnd_def wr_def Let_def split: sum.splits option.splits)

lemma bnd_retE:
  assumes "bnd (ret x) f s = (Inr r, s')"
  obtains "f x s = (Inr r, s')"
  using assms by (auto simp: bnd_def ret_def)

lemma bnd_ifE:
  assumes "bnd (if c then a else b) f s = (Inr r, s')"
  obtains "c" "bnd a f s = (Inr r, s')" | "\<not> c" "bnd b f s = (Inr r, s')"
  using assms by (auto split: if_splits)

lemma bnd_bndE:
  assumes "bnd (bnd m g) f s = (Inr r, s')"
  obtains "bnd m (\<lambda>x. bnd (g x) f) s = (Inr r, s')"
  using assms by (auto simp: bnd_def split: sum.splits prod.splits)

lemma abort_replyE:
  assumes "bnd abortTransaction (\<lambda>_. ret x) s = (Inr r, s')"
  obtains "r = x" "committed s' = committed s"
  using assms by (auto simp: bnd_def abortTransaction_def ret_def split: if_splits)

lemma commit_replyE:
  assumes "bnd (commitTransaction fp) (\<lambda>_. ret x) s = (Inr r, s')"
  obtains "r = x" "committed s' = working s"
  using assms by (auto simp: bnd_def commitTransaction_def ret_def split: option.splits sum.splits)

lemma throwE:
  assumes "throw e s = (Inr r, s')"
  obtains "False"
  using assms by (simp add: throw_def)

lemma ifE:
  assumes "(if c then a else b) s = (Inr r, s')"
  obtains "c" "a s = (Inr r, s')" | "\<not> c" "b s = (Inr r, s')"
  using assms by (auto split: if_splits)

lemma optionE:
  assumes "(case v of None \<Rightarrow> a | Some x \<Rightarrow> f x) s = (Inr r, s')"
  obtains "v = None" "a s = (Inr r, s')" | x where "v = Some x" "f x s = (Inr r, s')"
  using assms by (cases v) auto

lemma prodE:
  assumes "(case p of (a, b) \<Rightarrow> f a b) s = (Inr r, s')"
  obtains a b where "p = (a, b)" "f a b s = (Inr r, s')"
  using assms by (cases p) auto

lemmas stepE = abort_replyE commit_replyE bnd_rdE bnd_wrE bnd_retE bnd_ifE bnd_bndE throwE ifE optionE prodE

lemma users_post_ok:
  assumes "users_post_try fp nid now b (startTransaction d) = (Inr r, s')"
  shows "(committed s' = d \<and> 400 \<le> status r) \<or>
         (users_post_effect nid now b d = Inr (committed s') \<and> status r = 201)"
  using assms unfolding users_post_try_def Let_def
  apply (elim stepE)
  apply (auto simp: startTransaction_def json_def users_post_effect_def sbind_def found_def new_user_def
      valid_of_def take_over_def split: option.splits sum.splits)
  done

lemma users_put_ok:
  assumes "users_put_try fp i b (startTransaction d) = (Inr r, s')"
  shows "(committed s' = d \<and> 400 \<le> status r) \<or>
         (users_put_effect i b d = Inr (committed s') \<and> status r = 200)"
  using assms unfolding users_put_try_def Let_def
  apply (elim stepE)
  apply (auto simp: startTransaction_def json_def users_put_effect_def sbind_def found_def
      valid_of_def take_over_def split: option.splits sum.splits)
  done

lemma users_delete_ok:
  assumes "users_delete_try fp i (startTransaction d) = (Inr r, s')"
  shows "(committed s' = d \<and> 400 \<le> status r) \<or>
         (users_delete_effect i d = Inr (committed s') \<and> status r = 204)"
  using assms unfolding users_delete_try_def Let_def
  apply (elim stepE)
  apply (auto simp: startTransaction_def json_def users_delete_effect_def sbind_def found_def
      split: option.splits sum.splits)
  done

lemma tasks_post_ok:
  assumes "tasks_post_try fp nid now b (startTransaction d) = (Inr r, s')"
  shows "(committed s' = d \<and> 400 \<le> status r) \<or>
         (tasks_post_effect nid now b d = Inr (committed s') \<and> status r = 201)"
  using assms unfolding tasks_post_try_def Let_def resolve_assignee_def
  apply (elim stepE)
  apply (auto simp: startTransaction_def json_def tasks_post_effect_def sbind_def found_def
      resolve_pure_def new_task_def split: option.splits sum.splits)
  done

lemma tasks_put_ok:
  assumes "tasks_put_try fp i b (startTransaction d) = (Inr r, s')"
  shows "(committed s' = d \<and> 400 \<le> status r) \<or>
         (tasks_put_effect i b d = Inr (committed s') \<and> status r = 200)"
  using assms unfolding tasks_put_try_def Let_def resolve_assignee_def
  apply (elim stepE)
  apply (auto simp: startTransaction_def json_def tasks_put_effect_def sbind_def found_def
      resolve_pure_def split: option.splits sum.splits)
  done

lemma tasks_delete_ok:
  assumes "tasks_delete_try fp i (startTransaction d) = (Inr r, s')"
  shows "(committed s' = d \<and> 400 \<le> status r) \<or>
         (tasks_delete_effect i d = Inr (committed s') \<and> status r = 204)"
  using assms unfolding tasks_delete_try_def Let_def
  apply (elim stepE)
  apply (auto simp: startTransaction_def json_def tasks_delete_effect_def sbind_def found_def
      split: option.splits sum.splits)
  done

lemma sbindE:
  assumes "sbind m f = Inr y"
  obtains x where "m = Inr x" "f x = Inr y"
  using assms by (cases m) (simp_all add: sbind_def)

lemma foundE:
  assumes "found r = Inr x"
  obtains "r = Inr (Some x)"
  using assms by (auto simp: found_def split: sum.splits option.splits)

lemma pairE:
  assumes "(case p of (a, b) \<Rightarrow> f a b) = Inr y"
  obtains a b where "p = (a, b)" "f a b = Inr y"
  using assms by (cases p) auto

lemmas effE = sbindE foundE pairE

lemma sbind_Inr: "sbind m f = Inr y \<longleftrightarrow> (\<exists>x. m = Inr x \<and> f x = Inr y)"
  by (cases m) (simp_all add: sbind_def)

lemma handle_ok:
  assumes run: "handle_try fp rq (startTransaction d) = (Inr r, s')"
  shows "handle fp rq d = (Some r, committed s') \<and>
         ((committed s' = d \<and> 400 \<le> status r) \<or> (effect rq d = Inr (committed s') \<and> status r < 300))"
proof (cases rq)
  case (UsersPost nid now b)
  with run users_post_ok [of fp nid now b d r s'] show ?thesis
    by (auto simp: users_post_def)
next
  case (UsersPut i b)
  with run users_put_ok [of fp i b d r s'] show ?thesis
    by (auto simp: users_put_def)
next
  case (UsersDelete i)
  with run users_delete_ok [of fp i d r s'] show ?thesis
    by (auto simp: users_delete_def)
next
  case (TasksPost nid now b)
  with run tasks_post_ok [of fp nid now b d r s'] show ?thesis
    by (auto simp: tasks_post_def)
next
  case (TasksPut i b)
  with run tasks_put_ok [of fp i b d r s'] show ?thesis
    by (auto simp: tasks_put_def)
next
  case (TasksDelete i)
  with run tasks_delete_ok [of fp i d r s'] show ?thesis
    by (auto simp: tasks_delete_def)
qed

lemma handle_trace:
  assumes "handle fp rq d = (r, d')"
  shows "(d' = d \<and> (\<forall>x. r = Some x \<longrightarrow> 400 \<le> status x)) \<or>
         (effect rq d = Inr d' \<and> (\<exists>x. r = Some x \<and> status x < 300))"
proof (cases "handle_try fp rq (startTransaction d)")
  case (Pair res s')
  show ?thesis
  proof (cases res)
    case (Inl e)
    with Pair handle_raise [of fp rq d e s'] assms show ?thesis by auto
  next
    case (Inr r0)
    with Pair handle_ok [of fp rq d r0 s'] assms show ?thesis by auto
  qed
qed

section \<open>Lists of documents\<close>

lemma in_uids: "a \<in> uid ` set us \<longleftrightarrow> (\<exists>u \<in> set us. uid u = a)"
  by auto

lemma I1_open_iff:
  "I1_open d \<longleftrightarrow> (\<forall>t \<in> set (tasks d). completed t \<or> assignedUser t = [] \<or>
                     assignedUser t \<in> uid ` set (users d))"
  by (simp add: I1_open_def list_all_iff list_ex_iff in_uids)

lemma map_uid_update_first:
  "(\<And>u. uid (f u) = uid u) \<Longrightarrow> map uid (update_first P f us) = map uid us"
  by (induction us) auto

lemma uids_update_first:
  assumes "\<And>u. uid (f u) = uid u"
  shows "uid ` set (update_first P f us) = uid ` set us"
proof -
  have "set (map uid (update_first P f us)) = set (map uid us)"
    using assms by (simp add: map_uid_update_first)
  then show ?thesis by simp
qed

lemma uids_map_if:
  "(\<And>u. uid (f u) = uid u) \<Longrightarrow> uid ` set (map (\<lambda>u. if P u then f u else u) us) = uid ` set us"
  by (induction us) auto

lemma set_update_first:
  "x \<in> set (update_first P f xs) \<Longrightarrow> x \<in> set xs \<or> (\<exists>y \<in> set xs. P y \<and> x = f y)"
  by (induction xs) (auto split: if_splits)

lemma set_delete_first: "x \<in> set (delete_first P xs) \<Longrightarrow> x \<in> set xs"
  by (induction xs) (auto split: if_splits)

lemma delete_first_keeps: "x \<in> set xs \<Longrightarrow> \<not> P x \<Longrightarrow> x \<in> set (delete_first P xs)"
  by (induction xs) auto

lemma find_uid: "find (\<lambda>u. uid u = k) us = Some v \<Longrightarrow> uid v = k \<and> v \<in> set us"
  by (induction us) (auto split: if_splits)

lemma findById_users_Some:
  "findById_users a d = Inr (Some v) \<Longrightarrow> cast_oid a = Some (uid v) \<and> v \<in> set (users d)"
  by (auto simp: findById_users_def split: option.splits dest: find_uid)

section \<open>Creation times\<close>

lemma find_ustamp:
  "find (\<lambda>u. uid u = k) us = Some v \<Longrightarrow>
   map_of (map (\<lambda>u. (uid u, udateCreated u)) us) k = Some (udateCreated v)"
  by (induction us) (auto split: if_splits)

lemma find_tstamp:
  "find (\<lambda>t. tid t = k) ts = Some v \<Longrightarrow>
   map_of (map (\<lambda>t. (tid t, tdateCreated t)) ts) k = Some (tdateCreated v)"
  by (induction ts) (auto split: if_splits)

lemma overwrite_ustamps:
  "map_of (map (\<lambda>u. (uid u, udateCreated u)) us) k = Some dc \<Longrightarrow>
   map (\<lambda>u. (uid u, udateCreated u))
     (update_first (\<lambda>u. uid u = k)
        (\<lambda>u. \<lparr>uid = uid u, uname = n, email = e, pendingTasks = p, udateCreated = dc\<rparr>) us)
   = map (\<lambda>u. (uid u, udateCreated u)) us"
  by (induction us) (auto split: if_splits)

lemma overwrite_tstamps:
  "map_of (map (\<lambda>t. (tid t, tdateCreated t)) ts) k = Some dc \<Longrightarrow>
   map (\<lambda>t. (tid t, tdateCreated t))
     (update_first (\<lambda>t. tid t = k)
        (\<lambda>t. \<lparr>tid = tid t, tname = n, description = ds, deadline = dl, completed = c,
              assignedUser = a, assignedUserName = an, tdateCreated = dc\<rparr>) ts)
   = map (\<lambda>t. (tid t, tdateCreated t)) ts"
  by (induction ts) (auto split: if_splits)

lemma update_first_ustamps:
  "(\<And>u. uid (f u) = uid u \<and> udateCreated (f u) = udateCreated u) \<Longrightarrow>
   map (\<lambda>u. (uid u, udateCreated u)) (update_first P f us) = map (\<lambda>u. (uid u, udateCreated u)) us"
  by (induction us) auto

lemma stamps_updateMany_tasks:
  assumes "updateMany_tasks P f d = Inr d'" and "\<And>t. tid (f t) = tid t \<and> tdateCreated (f t) = tdateCreated t"
  shows "ustamps d' = ustamps d \<and> tstamps d' = tstamps d"
  using assms by (auto simp: updateMany_tasks_def ustamps_def tstamps_def)

lemma stamps_updateMany_users:
  assumes "updateMany_users P (\<lambda>u. u\<lparr>pendingTasks := g u\<rparr>) d = Inr d'"
  shows "ustamps d' = ustamps d \<and> tstamps d' = tstamps d"
  using assms by (auto simp: updateMany_users_def ustamps_def tstamps_def)

lemma stamps_updateOne_user:
  assumes "updateOne_user i (\<lambda>u. u\<lparr>pendingTasks := g u\<rparr>) d = Inr d'"
  shows "ustamps d' = ustamps d \<and> tstamps d' = tstamps d"
  using assms
  by (auto simp: updateOne_user_def ustamps_def tstamps_def update_first_ustamps split: option.splits)

lemma stamps_take_over:
  assumes "take_over k n valid d = Inr d'"
  shows "ustamps d' = ustamps d \<and> tstamps d' = tstamps d"
  using assms unfolding take_over_def
proof (elim effE)
  fix d2
  assume a: "updateMany_tasks (\<lambda>t. tid t \<in> set valid) (assign k n) d = Inr d2"
    and b: "updateMany_users (\<lambda>u. uid u \<noteq> k \<and> (\<exists>x \<in> set (pendingTasks u). x \<in> set valid))
                     (\<lambda>u. u\<lparr>pendingTasks := pull_in valid (pendingTasks u)\<rparr>) d2 = Inr d'"
  from stamps_updateMany_tasks [OF a] stamps_updateMany_users [OF b]
  show "ustamps d' = ustamps d \<and> tstamps d' = tstamps d"
    by (simp add: assign_def)
qed

lemma stamps_overwrite_user:
  assumes "overwrite_user i n e p dc d = Inr d'" and "findById_users i d0 = Inr (Some user)"
    and "ustamps d = ustamps d0" and "dc = udateCreated user"
  shows "ustamps d' = ustamps d \<and> tstamps d' = tstamps d"
proof -
  obtain k where k: "cast_oid i = Some k" and f: "find (\<lambda>u. uid u = k) (users d0) = Some user"
    using assms(2) by (auto simp: findById_users_def split: option.splits)
  have m: "map_of (map (\<lambda>u. (uid u, udateCreated u)) (users d)) k = Some dc"
    using find_ustamp [OF f] assms(3,4) by (simp add: ustamps_def)
  have "d' = d\<lparr>users := update_first (\<lambda>u. uid u = k)
                 (\<lambda>u. \<lparr>uid = uid u, uname = n, email = normalize_email e,
                       pendingTasks = p, udateCreated = dc\<rparr>) (users d)\<rparr>"
    using assms(1) k by (auto simp: overwrite_user_def split: if_splits)
  then show ?thesis
    using overwrite_ustamps [OF m] by (simp add: ustamps_def tstamps_def)
qed

lemma stamps_overwrite_task:
  assumes "overwrite_task i n ds dl c a an dc d = Inr d'" and "findById_tasks i d = Inr (Some cur)"
    and "dc = tdateCreated cur"
  shows "ustamps d' = ustamps d \<and> tstamps d' = tstamps d"
proof -
  obtain k where k: "cast_oid i = Some k" and f: "find (\<lambda>t. tid t = k) (tasks d) = Some cur"
    using assms(2) by (auto simp: findById_tasks_def split: option.splits)
  have m: "map_of (map (\<lambda>t. (tid t, tdateCreated t)) (tasks d)) k = Some dc"
    using find_tstamp [OF f] assms(3) by simp
  have "d' = d\<lparr>tasks := update_first (\<lambda>t. tid t = k)
                 (\<lambda>t. \<lparr>tid = tid t, tname = n, description = ds, deadline = dl, completed = c,
                       assignedUser = a, assignedUserName = an, tdateCreated = dc\<rparr>) (tasks d)\<rparr>"
    using assms(1) k by (auto simp: overwrite_task_def)
  then show ?thesis
    using overwrite_tstamps [OF m] by (simp add: ustamps_def tstamps_def)
qed

lemma users_put_effect_stamps:
  assumes "users_put_effect i b d = Inr d'"
  shows "ustamps d' = ustamps d \<and> tstamps d' = tstamps d"
  using assms unfolding users_put_effect_def
proof (elim effE)
  fix user :: user and d1 valid d2
  assume f: "findById_users i d = Inr (Some user)"
    and a: "updateMany_tasks (\<lambda>t. assignedUser t = uid user \<and> \<not> completed t) unassign d = Inr d1"
    and m: "(if valid \<noteq> [] then take_over (uid user) (str_or_empty (b_name b)) valid d1
                 else Inr d1) = Inr d2"
    and o: "overwrite_user i (str_or_empty (b_name b)) (str_or_empty (b_email b)) valid
            (udateCreated user) d2 = Inr d'"
  have 1: "ustamps d1 = ustamps d \<and> tstamps d1 = tstamps d"
    using stamps_updateMany_tasks [OF a] by (simp add: unassign_def)
  have 2: "ustamps d2 = ustamps d1 \<and> tstamps d2 = tstamps d1"
    using m stamps_take_over by (auto split: if_splits)
  have 3: "ustamps d' = ustamps d2 \<and> tstamps d' = tstamps d2"
    using stamps_overwrite_user [OF o f] 1 2 by simp
  from 1 2 3 show "ustamps d' = ustamps d \<and> tstamps d' = tstamps d"
    by simp
qed

lemma tasks_put_effect_stamps:
  assumes "tasks_put_effect i b d = Inr d'"
  shows "ustamps d' = ustamps d \<and> tstamps d' = tstamps d"
  using assms unfolding tasks_put_effect_def
proof (elim effE)
  fix cur updated :: task and na nn d1 d2
  assume f: "findById_tasks i d = Inr (Some cur)"
    and o: "overwrite_task i (str_or_empty (tb_name b)) (str_or_empty (tb_description b))
                   (case tb_deadline b of None \<Rightarrow> 0 | Some x \<Rightarrow> x)
                   (toBoolean (tb_completed b) False) na
                   (if na \<noteq> [] then nn else ''unassigned'')
                   (tdateCreated cur) d = Inr d1"
    and p: "(if assignedUser cur \<noteq> [] \<and> assignedUser cur \<noteq> na
                      then updateOne_user (assignedUser cur)
                             (\<lambda>u. u\<lparr>pendingTasks := pull (tid updated) (pendingTasks u)\<rparr>) d1
                      else Inr d1) = Inr d2"
    and q: "(if na \<noteq> [] then
                 (if toBoolean (tb_completed b) False
                  then updateOne_user na
                         (\<lambda>u. u\<lparr>pendingTasks := pull (tid updated) (pendingTasks u)\<rparr>) d2
                  else updateOne_user na
                         (\<lambda>u. u\<lparr>pendingTasks := addToSet (tid updated) (pendingTasks u)\<rparr>) d2)
               else Inr d2) = Inr d'"
  have 1: "ustamps d1 = ustamps d \<and> tstamps d1 = tstamps d"
    using stamps_overwrite_task [OF o f] by simp
  have 2: "ustamps d2 = ustamps d1 \<and> tstamps d2 = tstamps d1"
    using p stamps_updateOne_user by (auto split: if_splits)
  have 3: "ustamps d' = ustamps d2 \<and> tstamps d' = tstamps d2"
    using q stamps_updateOne_user by (auto split: if_splits)
  from 1 2 3 show "ustamps d' = ustamps d \<and> tstamps d' = tstamps d"
    by simp
qed

lemma replace_stamps:
  assumes "rq = UsersPut i ub \<or> rq = TasksPut i tb"
  shows "ustamps (snd (handle fp rq d)) = ustamps d \<and> tstamps (snd (handle fp rq d)) = tstamps d"
proof -
  obtain r d' where h: "handle fp rq d = (r, d')"
    by (cases "handle fp rq d")
  from handle_trace [OF h] show ?thesis
  proof
    assume "d' = d \<and> (\<forall>x. r = Some x \<longrightarrow> 400 \<le> status x)"
    with h show ?thesis by simp
  next
    assume e: "effect rq d = Inr d' \<and> (\<exists>x. r = Some x \<and> status x < 300)"
    with assms users_put_effect_stamps [of i ub d d'] tasks_put_effect_stamps [of i tb d d'] h
    show ?thesis by auto
  qed
qed

text \<open>
  C4: a replace of a user or of a task, whatever its body (a submitted creation time
  included) and whatever its outcome, leaves every stored document of both collections
  with the identifier and the creation time it had.
\<close>

theorem replace_keeps_dateCreated:
  "ustamps (snd (users_put fp i ub d)) = ustamps d
   \<and> tstamps (snd (users_put fp i ub d)) = tstamps d
   \<and> ustamps (snd (tasks_put fp j tb d)) = ustamps d
   \<and> tstamps (snd (tasks_put fp j tb d)) = tstamps d"
  using replace_stamps [of "UsersPut i ub" i ub tb fp d] replace_stamps [of "TasksPut j tb" j ub tb fp d]
  by simp

theorem replace_keeps_dateCreated_witness:
  "b_dateCreated (user_req ''Ann'' ''ann@x.com'' []) = Some 999
   \<and> tb_dateCreated (task_req ann_id True) = Some 999
   \<and> map_option status (fst (users_put no_faults ann_id (user_req ''Ann'' ''ann@x.com'' []) db_pending)) = Some 200
   \<and> map_option status (fst (tasks_put no_faults task1_id (task_req ann_id True) db_pending)) = Some 200
   \<and> ustamps db_pending = [(ann_id, 1)]
   \<and> tstamps db_pending = [(task1_id, 2)]
   \<and> ustamps (snd (users_put no_faults ann_id (user_req ''Ann'' ''ann@x.com'' []) db_pending))
        = [(ann_id, 1)]
   \<and> tstamps (snd (tasks_put no_faults task1_id (task_req ann_id True) db_pending))
        = [(task1_id, 2)]"
proof -
  have e: "b_dateCreated (user_req ''Ann'' ''ann@x.com'' []) = Some 999"
    "tb_dateCreated (task_req ann_id True) = Some 999"
    "map_option status (fst (users_put no_faults ann_id (user_req ''Ann'' ''ann@x.com'' []) db_pending)) = Some 200"
    "map_option status (fst (tasks_put no_faults task1_id (task_req ann_id True) db_pending)) = Some 200"
    "ustamps db_pending = [(ann_id, 1)]"
    "tstamps db_pending = [(task1_id, 2)]"
    by code_simp+
  show ?thesis
    using e replace_keeps_dateCreated [of no_faults ann_id "user_req ''Ann'' ''ann@x.com'' []"
        db_pending task1_id "task_req ann_id True"]
    by simp
qed

section \<open>Replace User and the tasks it drops\<close>

text \<open>
  C2, as the claim states it, fails: the task pending on Ann is absent from the new
  (empty) list, and the replace clears its assignee and resets the cached name.
\<close>

theorem users_put_dropped_task_counterexample:
  "map_option status (fst (users_put no_faults ann_id (user_req ''Ann'' ''ann@x.com'' []) db_pending)) = Some 200
   \<and> map pendingTasks (users db_pending) = [[task1_id]]
   \<and> map assignedUser (tasks db_pending) = [ann_id]
   \<and> map assignedUserName (tasks db_pending) = [''Ann'']
   \<and> map pendingTasks
        (users (snd (users_put no_faults ann_id (user_req ''Ann'' ''ann@x.com'' []) db_pending))) = [[]]
   \<and> map assignedUser
        (tasks (snd (users_put no_faults ann_id (user_req ''Ann'' ''ann@x.com'' []) db_pending))) = [[]]
   \<and> map assignedUserName
        (tasks (snd (users_put no_faults ann_id (user_req ''Ann'' ''ann@x.com'' []) db_pending)))
        = [''unassigned'']"
  by code_simp

lemma find_update_first:
  "(\<And>u. uid (f u) = uid u) \<Longrightarrow>
   find (\<lambda>u. uid u = k) (update_first (\<lambda>u. uid u = k) f us) = map_option f (find (\<lambda>u. uid u = k) us)"
  by (induction us) auto

lemma find_None_uids: "find (\<lambda>u. uid u = k) us = None \<longleftrightarrow> k \<notin> uid ` set us"
  by (induction us) auto

lemma tasks_take_over:
  assumes "take_over k n valid d = Inr d'"
  shows "tasks d' = map (\<lambda>t. if tid t \<in> set valid then assign k n t else t) (tasks d)
         \<and> uid ` set (users d') = uid ` set (users d)"
  using assms unfolding take_over_def
proof (elim effE)
  fix d2
  assume a: "updateMany_tasks (\<lambda>t. tid t \<in> set valid) (assign k n) d = Inr d2"
    and b: "updateMany_users (\<lambda>u. uid u \<noteq> k \<and> (\<exists>x \<in> set (pendingTasks u). x \<in> set valid))
                     (\<lambda>u. u\<lparr>pendingTasks := pull_in valid (pendingTasks u)\<rparr>) d2 = Inr d'"
  have us: "users d' = map (\<lambda>u. if uid u \<noteq> k \<and> (\<exists>x \<in> set (pendingTasks u). x \<in> set valid)
          then u\<lparr>pendingTasks := pull_in valid (pendingTasks u)\<rparr> else u) (users d)"
    and ts: "tasks d' = map (\<lambda>t. if tid t \<in> set valid then assign k n t else t) (tasks d)"
    using a b by (auto simp: updateMany_tasks_def updateMany_users_def)
  have "uid ` set (users d') = uid ` set (users d)"
    unfolding us by (rule uids_map_if) simp
  with ts show "tasks d' = map (\<lambda>t. if tid t \<in> set valid then assign k n t else t) (tasks d)
         \<and> uid ` set (users d') = uid ` set (users d)"
    by simp
qed

lemma users_put_effect_tasks:
  assumes "users_put_effect i b d = Inr d'"
    and "findById_users i d = Inr (Some user)"
    and "findById_users i d' = Inr (Some user')"
  shows "tasks d' = map (\<lambda>t. if tid t \<in> set (pendingTasks user')
                              then assign (uid user) (uname user') t
                              else if assignedUser t = uid user \<and> \<not> completed t then unassign t
                              else t) (tasks d)"
  using assms(1) unfolding users_put_effect_def
proof (elim effE)
  fix user0 :: user and d1 valid d2
  assume f: "findById_users i d = Inr (Some user0)"
    and a: "updateMany_tasks (\<lambda>t. assignedUser t = uid user0 \<and> \<not> completed t) unassign d = Inr d1"
    and m: "(if valid \<noteq> [] then take_over (uid user0) (str_or_empty (b_name b)) valid d1
                 else Inr d1) = Inr d2"
    and o: "overwrite_user i (str_or_empty (b_name b)) (str_or_empty (b_email b)) valid
            (udateCreated user0) d2 = Inr d'"
  have u0: "user0 = user"
    using f assms(2) by simp
  obtain k where k: "cast_oid i = Some k" and fk: "find (\<lambda>u. uid u = k) (users d) = Some user"
    using assms(2) by (auto simp: findById_users_def split: option.splits)
  have d1: "tasks d1 = map (\<lambda>t. if assignedUser t = uid user \<and> \<not> completed t then unassign t else t) (tasks d)"
    "users d1 = users d"
    using a u0 by (auto simp: updateMany_tasks_def)
  have d2: "tasks d2 = map (\<lambda>t. if tid t \<in> set valid then assign (uid user) (str_or_empty (b_name b)) t else t) (tasks d1)"
    "uid ` set (users d2) = uid ` set (users d1)"
  proof -
    show "tasks d2 = map (\<lambda>t. if tid t \<in> set valid then assign (uid user) (str_or_empty (b_name b)) t else t) (tasks d1)"
    proof (cases "valid \<noteq> []")
      case True
      with m u0 tasks_take_over [of "uid user" "str_or_empty (b_name b)" valid d1 d2] show ?thesis by simp
    next
      case False
      with m show ?thesis by simp
    qed
    show "uid ` set (users d2) = uid ` set (users d1)"
    proof (cases "valid \<noteq> []")
      case True
      with m u0 tasks_take_over [of "uid user" "str_or_empty (b_name b)" valid d1 d2] show ?thesis by simp
    next
      case False
      with m show ?thesis by simp
    qed
  qed
  have d': "d' = d2\<lparr>users := update_first (\<lambda>u. uid u = k)
                 (\<lambda>u. \<lparr>uid = uid u, uname = str_or_empty (b_name b),
                       email = normalize_email (str_or_empty (b_email b)),
                       pendingTasks = valid, udateCreated = udateCreated user0\<rparr>) (users d2)\<rparr>"
    using o k by (auto simp: overwrite_user_def split: if_splits)
  have "k \<in> uid ` set (users d2)"
    using find_uid [OF fk] d1(2) d2(2) by auto
  then obtain u2 where u2: "find (\<lambda>u. uid u = k) (users d2) = Some u2"
    using find_None_uids [of k "users d2"] by (cases "find (\<lambda>u. uid u = k) (users d2)") auto
  have "find (\<lambda>u. uid u = k) (users d') = Some \<lparr>uid = uid u2, uname = str_or_empty (b_name b),
                       email = normalize_email (str_or_empty (b_email b)),
                       pendingTasks = valid, udateCreated = udateCreated user0\<rparr>"
    unfolding d' using u2 by (simp add: find_update_first)
  then have new: "pendingTasks user' = valid" "uname user' = str_or_empty (b_name b)"
    using assms(3) k by (auto simp: findById_users_def)
  have "tasks d' = tasks d2"
    using d' by simp
  then show "tasks d' = map (\<lambda>t. if tid t \<in> set (pendingTasks user')
                              then assign (uid user) (uname user') t
                              else if assignedUser t = uid user \<and> \<not> completed t then unassign t
                              else t) (tasks d)"
    unfolding d2(1) d1(1) new by (auto simp: assign_def unassign_def)
qed

text \<open>
  C2, amended: after a replace of a user that succeeds, a task in the stored pending
  list is assigned to the user under the new name; any other task that was assigned to
  the user and not completed is unassigned (assignee empty, cached name "unassigned");
  every other task is as it was.
\<close>

theorem users_put_unassigns_dropped:
  assumes "users_put fp i b d = (Some r, d')" and "status r = 200"
    and "findById_users i d = Inr (Some user)"
    and "findById_users i d' = Inr (Some user')"
  shows "tasks d' = map (\<lambda>t. if tid t \<in> set (pendingTasks user')
                              then assign (uid user) (uname user') t
                              else if assignedUser t = uid user \<and> \<not> completed t then unassign t
                              else t) (tasks d)"
proof -
  have "handle fp (UsersPut i b) d = (Some r, d')"
    using assms(1) by simp
  from handle_trace [OF this] assms(2) have "users_put_effect i b d = Inr d'"
    by auto
  from users_put_effect_tasks [OF this assms(3,4)] show ?thesis .
qed

theorem users_put_unassigns_dropped_witness:
  "map_option status (fst (users_put no_faults ann_id (user_req ''Ann'' ''ann@x.com'' []) db_pending)) = Some 200
   \<and> findById_users ann_id db_pending
       = Inr (Some \<lparr>uid = ann_id, uname = ''Ann'', email = ''ann@x.com'',
                    pendingTasks = [task1_id], udateCreated = 1\<rparr>)
   \<and> findById_users ann_id (snd (users_put no_faults ann_id (user_req ''Ann'' ''ann@x.com'' []) db_pending))
       = Inr (Some \<lparr>uid = ann_id, uname = ''Ann'', email = ''ann@x.com'',
                    pendingTasks = [], udateCreated = 1\<rparr>)
   \<and> tasks (snd (users_put no_faults ann_id (user_req ''Ann'' ''ann@x.com'' []) db_pending))
       = map unassign (tasks db_pending)"
proof -
  let ?r = "users_put no_faults ann_id (user_req ''Ann'' ''ann@x.com'' []) db_pending"
  have s: "map_option status (fst ?r) = Some 200"
    by code_simp
  then obtain r where r: "fst ?r = Some r" "status r = 200"
    by auto
  have p: "?r = (Some r, snd ?r)"
    using r(1) by (cases ?r) simp
  have f: "findById_users ann_id db_pending
       = Inr (Some \<lparr>uid = ann_id, uname = ''Ann'', email = ''ann@x.com'',
                    pendingTasks = [task1_id], udateCreated = 1\<rparr>)"
    by code_simp
  have g: "findById_users ann_id (snd ?r)
       = Inr (Some \<lparr>uid = ann_id, uname = ''Ann'', email = ''ann@x.com'',
                    pendingTasks = [], udateCreated = 1\<rparr>)"
    by code_simp
  have t: "map assignedUser (tasks db_pending) = [ann_id]" "map completed (tasks db_pending) = [False]"
    by code_simp+
  have "tasks (snd ?r) = map unassign (tasks db_pending)"
    using users_put_unassigns_dropped [OF p r(2) f g] t by auto
  with s f g show ?thesis
    by simp
qed

section \<open>Assignees and stored users\<close>

text \<open>
  C3, as the claim states it, fails: deleting Ann leaves her completed task with
  her identifier as assignee, and no such user is stored any more.
\<close>

theorem deleted_user_completed_task_counterexample:
  "I1 db_done
   \<and> map_option status (fst (users_delete no_faults ann_id db_done)) = Some 204
   \<and> map uid (users (snd (users_delete no_faults ann_id db_done))) = []
   \<and> map assignedUser (tasks (snd (users_delete no_faults ann_id db_done))) = [ann_id]
   \<and> \<not> I1 (snd (users_delete no_faults ann_id db_done))"
  by code_simp

text \<open>Steps that keep the invariant and lose no user.\<close>

lemma step_unassign:
  assumes "updateMany_tasks P unassign d = Inr d'"
  shows "(I1_open d \<longrightarrow> I1_open d') \<and> uid ` set (users d) \<subseteq> uid ` set (users d')"
  using assms by (auto simp: updateMany_tasks_def I1_open_iff unassign_def)

lemma step_assign:
  assumes "updateMany_tasks P (assign k n) d = Inr d'" and "k \<in> uid ` set (users d)"
  shows "(I1_open d \<longrightarrow> I1_open d') \<and> uid ` set (users d) \<subseteq> uid ` set (users d')"
  using assms by (auto simp: updateMany_tasks_def I1_open_iff assign_def)

lemma step_pull_others:
  assumes "updateMany_users P (\<lambda>u. u\<lparr>pendingTasks := g u\<rparr>) d = Inr d'"
  shows "(I1_open d \<longrightarrow> I1_open d') \<and> uid ` set (users d) \<subseteq> uid ` set (users d')"
proof -
  have "d' = d\<lparr>users := map (\<lambda>u. if P u then u\<lparr>pendingTasks := g u\<rparr> else u) (users d)\<rparr>"
    using assms by (auto simp: updateMany_users_def)
  then have "users d' = map (\<lambda>u. if P u then u\<lparr>pendingTasks := g u\<rparr> else u) (users d)"
    "tasks d' = tasks d"
    by simp_all
  then have "uid ` set (users d') = uid ` set (users d)" "tasks d' = tasks d"
    using uids_map_if [of "\<lambda>u. u\<lparr>pendingTasks := g u\<rparr>" P "users d"] by simp_all
  then show ?thesis
    by (simp add: I1_open_iff)
qed

lemma step_updateOne:
  assumes "updateOne_user i (\<lambda>u. u\<lparr>pendingTasks := g u\<rparr>) d = Inr d'"
  shows "(I1_open d \<longrightarrow> I1_open d') \<and> uid ` set (users d) \<subseteq> uid ` set (users d')"
proof -
  obtain k where "d' = d\<lparr>users := update_first (\<lambda>u. uid u = k) (\<lambda>u. u\<lparr>pendingTasks := g u\<rparr>) (users d)\<rparr>"
    using assms by (auto simp: updateOne_user_def split: option.splits)
  then have "uid ` set (users d') = uid ` set (users d)" "tasks d' = tasks d"
    by (simp_all add: uids_update_first)
  then show ?thesis
    by (simp add: I1_open_iff)
qed

lemma step_overwrite_user:
  assumes "overwrite_user i n e p dc d = Inr d'"
  shows "(I1_open d \<longrightarrow> I1_open d') \<and> uid ` set (users d) \<subseteq> uid ` set (users d')"
proof -
  obtain k where "d' = d\<lparr>users := update_first (\<lambda>u. uid u = k)
                 (\<lambda>u. \<lparr>uid = uid u, uname = n, email = normalize_email e,
                       pendingTasks = p, udateCreated = dc\<rparr>) (users d)\<rparr>"
    using assms by (auto simp: overwrite_user_def split: option.splits if_splits)
  then have "uid ` set (users d') = uid ` set (users d)" "tasks d' = tasks d"
    by (simp_all add: uids_update_first)
  then show ?thesis
    by (simp add: I1_open_iff)
qed

lemma step_create_user:
  assumes "create_user u d = Inr d'"
  shows "(I1_open d \<longrightarrow> I1_open d') \<and> uid ` set (users d) \<subseteq> uid ` set (users d')
         \<and> uid u \<in> uid ` set (users d')"
  using assms by (auto simp: create_user_def I1_open_iff split: if_splits)

lemma step_create_task:
  assumes "create_task t d = Inr d'" and "assignedUser t = [] \<or> assignedUser t \<in> uid ` set (users d)"
  shows "(I1_open d \<longrightarrow> I1_open d') \<and> uid ` set (users d) \<subseteq> uid ` set (users d')"
  using assms by (auto simp: create_task_def I1_open_iff split: if_splits)

lemma step_overwrite_task:
  assumes "overwrite_task i n ds dl c a an dc d = Inr d'" and "a = [] \<or> a \<in> uid ` set (users d)"
  shows "(I1_open d \<longrightarrow> I1_open d') \<and> uid ` set (users d) \<subseteq> uid ` set (users d')"
proof -
  obtain k where d': "d' = d\<lparr>tasks := update_first (\<lambda>t. tid t = k)
                 (\<lambda>t. \<lparr>tid = tid t, tname = n, description = ds, deadline = dl, completed = c,
                       assignedUser = a, assignedUserName = an, tdateCreated = dc\<rparr>) (tasks d)\<rparr>"
    using assms(1) by (auto simp: overwrite_task_def split: option.splits)
  show ?thesis
    unfolding I1_open_iff d' using assms(2) by (auto dest!: set_update_first)
qed

lemma step_delete_task:
  assumes "deleteOne_task k d = Inr d'"
  shows "(I1_open d \<longrightarrow> I1_open d') \<and> uid ` set (users d) \<subseteq> uid ` set (users d')"
proof -
  have "users d' = users d" "set (tasks d') \<subseteq> set (tasks d)"
    using assms by (auto simp: deleteOne_task_def dest!: set_delete_first)
  then show ?thesis
    by (auto simp: I1_open_iff)
qed

lemma step_take_over:
  assumes "take_over k n valid d = Inr d'" and "k \<in> uid ` set (users d)"
  shows "(I1_open d \<longrightarrow> I1_open d') \<and> uid ` set (users d) \<subseteq> uid ` set (users d')"
proof -
  obtain d2 where a: "updateMany_tasks (\<lambda>t. tid t \<in> set valid) (assign k n) d = Inr d2"
    and b: "updateMany_users (\<lambda>u. uid u \<noteq> k \<and> (\<exists>x \<in> set (pendingTasks u). x \<in> set valid))
                     (\<lambda>u. u\<lparr>pendingTasks := pull_in valid (pendingTasks u)\<rparr>) d2 = Inr d'"
    using assms(1) by (auto simp: take_over_def sbind_Inr)
  from step_assign [OF a assms(2)] step_pull_others [OF b] show ?thesis
    by blast
qed

lemma users_post_effect_I1_open:
  assumes "users_post_effect nid now b d = Inr d'" and "I1_open d"
  shows "I1_open d'"
  using assms(1) unfolding users_post_effect_def
proof (elim effE)
  fix d1 valid
  assume c: "create_user (new_user nid now b) d = Inr d1"
    and rest: "(if valid \<noteq> [] then
       sbind (take_over nid (str_or_empty (b_name b)) valid d1) (\<lambda>d3.
       updateOne_user nid (\<lambda>u. u\<lparr>pendingTasks := valid\<rparr>) d3)
     else updateOne_user nid (\<lambda>u. u\<lparr>pendingTasks := []\<rparr>) d1) = Inr d'"
  have 1: "I1_open d1" "nid \<in> uid ` set (users d1)"
    using step_create_user [OF c] assms(2) by (simp_all add: new_user_def)
  show "I1_open d'"
  proof (cases "valid \<noteq> []")
    case True
    with rest obtain d3 where t: "take_over nid (str_or_empty (b_name b)) valid d1 = Inr d3"
      and u: "updateOne_user nid (\<lambda>u. u\<lparr>pendingTasks := valid\<rparr>) d3 = Inr d'"
      by (auto elim: sbindE)
    from step_take_over [OF t 1(2)] step_updateOne [OF u] 1(1) show ?thesis
      by blast
  next
    case False
    then have "updateOne_user nid (\<lambda>u. u\<lparr>pendingTasks := []\<rparr>) d1 = Inr d'"
      using rest by simp
    from step_updateOne [OF this] 1(1) show ?thesis
      by blast
  qed
qed

lemma users_put_effect_I1_open:
  assumes "users_put_effect i b d = Inr d'" and "I1_open d"
  shows "I1_open d'"
  using assms(1) unfolding users_put_effect_def
proof (elim effE)
  fix user :: user and d1 valid d2
  assume f: "findById_users i d = Inr (Some user)"
    and a: "updateMany_tasks (\<lambda>t. assignedUser t = uid user \<and> \<not> completed t) unassign d = Inr d1"
    and m: "(if valid \<noteq> [] then take_over (uid user) (str_or_empty (b_name b)) valid d1
                 else Inr d1) = Inr d2"
    and o: "overwrite_user i (str_or_empty (b_name b)) (str_or_empty (b_email b)) valid
            (udateCreated user) d2 = Inr d'"
  have u: "uid user \<in> uid ` set (users d)"
    using findById_users_Some [OF f] by blast
  have 1: "I1_open d1" "uid user \<in> uid ` set (users d1)"
    using step_unassign [OF a] assms(2) u by auto
  have 2: "I1_open d2"
  proof (cases "valid \<noteq> []")
    case True
    with m have "take_over (uid user) (str_or_empty (b_name b)) valid d1 = Inr d2" by simp
    from step_take_over [OF this 1(2)] 1(1) show ?thesis by blast
  next
    case False
    with m 1(1) show ?thesis by simp
  qed
  from step_overwrite_user [OF o] 2 show "I1_open d'" by blast
qed

lemma users_delete_effect_I1_open:
  assumes "users_delete_effect i d = Inr d'" and "I1_open d"
  shows "I1_open d'"
  using assms(1) unfolding users_delete_effect_def
proof (elim effE)
  fix u :: user and d1
  assume a: "updateMany_tasks (\<lambda>t. assignedUser t = uid u \<and> \<not> completed t) unassign d = Inr d1"
    and b: "deleteOne_user (uid u) d1 = Inr d'"
  have d': "d' = d\<lparr>tasks := map (\<lambda>t. if assignedUser t = uid u \<and> \<not> completed t then unassign t else t) (tasks d),
                    users := delete_first (\<lambda>v. uid v = uid u) (users d)\<rparr>"
    using a b by (auto simp: updateMany_tasks_def deleteOne_user_def)
  show "I1_open d'"
    unfolding I1_open_iff
  proof
    fix t' assume "t' \<in> set (tasks d')"
    then obtain t where t: "t \<in> set (tasks d)"
      and t': "t' = (if assignedUser t = uid u \<and> \<not> completed t then unassign t else t)"
      using d' by auto
    show "completed t' \<or> assignedUser t' = [] \<or> assignedUser t' \<in> uid ` set (users d')"
    proof (cases "assignedUser t = uid u \<and> \<not> completed t")
      case True
      with t' show ?thesis by (simp add: unassign_def)
    next
      case False
      then have eq: "t' = t" using t' by auto
      from assms(2) t have "completed t \<or> assignedUser t = [] \<or> assignedUser t \<in> uid ` set (users d)"
        by (simp add: I1_open_iff)
      then show ?thesis
      proof (elim disjE)
        assume "assignedUser t \<in> uid ` set (users d)"
        then obtain v where v: "v \<in> set (users d)" "uid v = assignedUser t" by auto
        show ?thesis
        proof (cases "completed t")
          case True
          with eq show ?thesis by simp
        next
          case nc: False
          with False have "uid v \<noteq> uid u" using v by simp
          then have "v \<in> set (delete_first (\<lambda>v. uid v = uid u) (users d))"
            using v(1) by (simp add: delete_first_keeps)
          then have "assignedUser t \<in> uid ` set (users d')"
            using v(2) d' by force
          with eq show ?thesis by simp
        qed
      qed (simp_all add: eq)
    qed
  qed
qed

lemma resolve_pure_printed:
  assumes "resolve_pure a d = Inr (na, nn)" and "printed_ref (Some a)"
  shows "na = [] \<or> na \<in> uid ` set (users d)"
proof (cases "na = []")
  case False
  then obtain v where "findById_users a d = Inr (Some v)" "na = a"
    using assms(1) by (auto simp: resolve_pure_def split: if_splits sum.splits option.splits)
  moreover from this have "cast_oid a = Some (uid v)" "v \<in> set (users d)"
    using findById_users_Some by blast+
  ultimately show ?thesis
    using assms(2) by (auto simp: printed_ref_def str_or_empty_def)
qed simp

lemma printed_ref_str:
  "printed_ref a \<Longrightarrow> printed_ref (Some (str_or_empty a))"
  by (cases a) (simp_all add: printed_ref_def str_or_empty_def cast_oid_def)

lemma tasks_post_effect_I1_open:
  assumes "tasks_post_effect nid now b d = Inr d'" and "I1_open d" and "printed_ref (tb_assignedUser b)"
  shows "I1_open d'"
  using assms(1) unfolding tasks_post_effect_def
proof (elim effE)
  fix x na nn d1
  assume r0: "resolve_pure (str_or_empty (tb_assignedUser b)) d = Inr x" and x: "x = (na, nn)"
    and c: "create_task (new_task nid now b na nn) d = Inr d1"
    and u: "(if na \<noteq> [] \<and> \<not> toBoolean (tb_completed b) False
     then updateOne_user na (\<lambda>u. u\<lparr>pendingTasks := addToSet nid (pendingTasks u)\<rparr>) d1
     else Inr d1) = Inr d'"
  have r: "resolve_pure (str_or_empty (tb_assignedUser b)) d = Inr (na, nn)"
    using r0 x by simp
  have "na = [] \<or> na \<in> uid ` set (users d)"
    using resolve_pure_printed [OF r printed_ref_str [OF assms(3)]] .
  then have 1: "I1_open d1"
    using step_create_task [OF c] assms(2) by (simp add: new_task_def)
  show "I1_open d'"
  proof (cases "na \<noteq> [] \<and> \<not> toBoolean (tb_completed b) False")
    case True
    with u have "updateOne_user na (\<lambda>u. u\<lparr>pendingTasks := addToSet nid (pendingTasks u)\<rparr>) d1 = Inr d'"
      by simp
    from step_updateOne [OF this] 1 show ?thesis by blast
  next
    case False
    with u 1 show ?thesis by simp
  qed
qed

lemma tasks_put_effect_I1_open:
  assumes "tasks_put_effect i b d = Inr d'" and "I1_open d" and "printed_ref (tb_assignedUser b)"
  shows "I1_open d'"
  using assms(1) unfolding tasks_put_effect_def
proof (elim effE)
  fix cur updated :: task and x na nn d1 d2
  assume r0: "resolve_pure (str_or_empty (tb_assignedUser b)) d = Inr x" and x: "x = (na, nn)"
    and o: "overwrite_task i (str_or_empty (tb_name b)) (str_or_empty (tb_description b))
                   (case tb_deadline b of None \<Rightarrow> 0 | Some x \<Rightarrow> x)
                   (toBoolean (tb_completed b) False) na
                   (if na \<noteq> [] then nn else ''unassigned'')
                   (tdateCreated cur) d = Inr d1"
    and p: "(if assignedUser cur \<noteq> [] \<and> assignedUser cur \<noteq> na
                      then updateOne_user (assignedUser cur)
                             (\<lambda>u. u\<lparr>pendingTasks := pull (tid updated) (pendingTasks u)\<rparr>) d1
                      else Inr d1) = Inr d2"
    and q: "(if na \<noteq> [] then
                 (if toBoolean (tb_completed b) False
                  then updateOne_user na
                         (\<lambda>u. u\<lparr>pendingTasks := pull (tid updated) (pendingTasks u)\<rparr>) d2
                  else updateOne_user na
                         (\<lambda>u. u\<lparr>pendingTasks := addToSet (tid updated) (pendingTasks u)\<rparr>) d2)
               else Inr d2) = Inr d'"
  have r: "resolve_pure (str_or_empty (tb_assignedUser b)) d = Inr (na, nn)"
    using r0 x by simp
  have "na = [] \<or> na \<in> uid ` set (users d)"
    using resolve_pure_printed [OF r printed_ref_str [OF assms(3)]] .
  then have 1: "I1_open d1"
    using step_overwrite_task [OF o] assms(2) by blast
  have 2: "I1_open d2"
    using p 1 step_updateOne by (auto split: if_splits)
  show "I1_open d'"
    using q 2 step_updateOne by (auto split: if_splits)
qed

lemma tasks_delete_effect_I1_open:
  assumes "tasks_delete_effect i d = Inr d'" and "I1_open d"
  shows "I1_open d'"
  using assms(1) unfolding tasks_delete_effect_def
proof (elim effE)
  fix t :: task and d1
  assume p: "(if assignedUser t \<noteq> []
                 then updateOne_user (assignedUser t)
                        (\<lambda>u. u\<lparr>pendingTasks := pull (tid t) (pendingTasks u)\<rparr>) d
                 else Inr d) = Inr d1"
    and q: "deleteOne_task (tid t) d1 = Inr d'"
  have 1: "I1_open d1"
    using p assms(2) step_updateOne by (auto split: if_splits)
  from step_delete_task [OF q] 1 show "I1_open d'" by blast
qed

lemma effect_I1_open:
  assumes "effect rq d = Inr d'" and "I1_open d" and "printed_request rq"
  shows "I1_open d'"
  using assms
  by (cases rq)
    (auto intro: users_post_effect_I1_open users_put_effect_I1_open users_delete_effect_I1_open
      tasks_post_effect_I1_open tasks_put_effect_I1_open tasks_delete_effect_I1_open)

lemma handle_I1_open:
  assumes "I1_open d" and "printed_request rq"
  shows "I1_open (snd (handle fp rq d))"
proof -
  obtain r d' where h: "handle fp rq d = (r, d')"
    by (cases "handle fp rq d")
  from handle_trace [OF h] show ?thesis
  proof
    assume "d' = d \<and> (\<forall>x. r = Some x \<longrightarrow> 400 \<le> status x)"
    with h assms(1) show ?thesis by simp
  next
    assume "effect rq d = Inr d' \<and> (\<exists>x. r = Some x \<and> status x < 300)"
    with effect_I1_open [of rq d d'] assms h show ?thesis by simp
  qed
qed

text \<open>
  C3, amended: in every database that requests build from the empty one, each
  task that is not completed has an empty assignee or the identifier of a stored user.
  (The requests name assignees in printed form; a completed task may keep the
  identifier of a user deleted since.)
\<close>

theorem open_tasks_name_stored_users:
  assumes "reachable d"
  shows "I1_open d"
  using assms
proof (induction rule: reachable.induct)
  case init
  show ?case by (simp add: I1_open_def empty_db_def)
next
  case (step d rq fp)
  then show ?case by (simp add: handle_I1_open)
qed

theorem open_tasks_name_stored_users_witness:
  "reachable (snd (users_delete no_faults ann_id db_done))
   \<and> I1_open (snd (users_delete no_faults ann_id db_done))
   \<and> reachable db_pending \<and> I1_open db_pending"
proof -
  have pr: "printed_request (TasksPost task1_id 2 (task_req ann_id True))"
    "printed_request (TasksPost task1_id 2 (task_req ann_id False))"
    by code_simp+
  have 1: "reachable db_ann"
    unfolding db_ann_def
    using reachable.step [OF reachable.init, of "UsersPost ann_id 1 (user_req ''Ann'' ''ann@x.com'' [])" no_faults]
    by simp
  have 2: "reachable db_done"
    unfolding db_done_def
    using reachable.step [OF 1 pr(1), of no_faults] by simp
  have 3: "reachable db_pending"
    unfolding db_pending_def
    using reachable.step [OF 1 pr(2), of no_faults] by simp
  have 4: "reachable (snd (users_delete no_faults ann_id db_done))"
    using reachable.step [OF 2, of "UsersDelete ann_id" no_faults] by simp
  from 3 4 open_tasks_name_stored_users [OF 3] open_tasks_name_stored_users [OF 4]
  show ?thesis by simp
qed

section \<open>The pending lists on runs with printed identifiers\<close>

text \<open>
  Each committed effect keeps the state in which the stored references agree, so I2 holds
  in every database built by requests with printed identifiers.
\<close>

lemma I2_iff:
  "I2 d \<longleftrightarrow> (\<forall>t \<in> set (tasks d). \<forall>u \<in> set (users d).
      (tid t \<in> set (pendingTasks u)) = (assignedUser t = uid u \<and> \<not> completed t))"
  by (simp add: I2_def list_all_iff)

lemma wf_iff:
  "wf d \<longleftrightarrow>
     (\<forall>t \<in> set (tasks d). \<forall>u \<in> set (users d).
        (tid t \<in> set (pendingTasks u)) = (assignedUser t = uid u \<and> \<not> completed t))
   \<and> distinct (map uid (users d)) \<and> distinct (map tid (tasks d))
   \<and> (\<forall>u \<in> set (users d). cast_oid (uid u) = Some (uid u))
   \<and> (\<forall>t \<in> set (tasks d). completed t \<or> assignedUser t = [] \<or> assignedUser t \<in> uid ` set (users d))
   \<and> (\<forall>u \<in> set (users d). set (pendingTasks u) \<subseteq> tid ` set (tasks d))"
  by (auto simp: wf_def I2_iff I1_open_iff list_all_iff)

lemma update_first_distinct_uid:
  "distinct (map uid us) \<Longrightarrow>
   update_first (\<lambda>u. uid u = k) f us = map (\<lambda>u. if uid u = k then f u else u) us"
proof (induction us)
  case Nil
  show ?case by simp
next
  case (Cons a us)
  show ?case
  proof (cases "uid a = k")
    case True
    with Cons.prems have "\<forall>u \<in> set us. uid u \<noteq> k" by (force simp: image_iff)
    then have "map (\<lambda>u. if uid u = k then f u else u) us = us"
      by (induction us) auto
    with True show ?thesis by simp
  next
    case False
    with Cons show ?thesis by simp
  qed
qed

lemma update_first_distinct_tid:
  "distinct (map tid ts) \<Longrightarrow>
   update_first (\<lambda>t. tid t = k) f ts = map (\<lambda>t. if tid t = k then f t else t) ts"
proof (induction ts)
  case Nil
  show ?case by simp
next
  case (Cons a ts)
  show ?case
  proof (cases "tid a = k")
    case True
    with Cons.prems have "\<forall>t \<in> set ts. tid t \<noteq> k" by (force simp: image_iff)
    then have "map (\<lambda>t. if tid t = k then f t else t) ts = ts"
      by (induction ts) auto
    with True show ?thesis by simp
  next
    case False
    with Cons show ?thesis by simp
  qed
qed

lemma delete_first_distinct_uid:
  "distinct (map uid us) \<Longrightarrow> delete_first (\<lambda>u. uid u = k) us = filter (\<lambda>u. uid u \<noteq> k) us"
proof (induction us)
  case Nil
  show ?case by simp
next
  case (Cons a us)
  show ?case
  proof (cases "uid a = k")
    case True
    with Cons.prems have "\<forall>u \<in> set us. uid u \<noteq> k" by (force simp: image_iff)
    then have "filter (\<lambda>u. uid u \<noteq> k) us = us"
      by (induction us) auto
    with True show ?thesis by simp
  next
    case False
    with Cons show ?thesis by simp
  qed
qed

lemma delete_first_distinct_tid:
  "distinct (map tid ts) \<Longrightarrow> delete_first (\<lambda>t. tid t = k) ts = filter (\<lambda>t. tid t \<noteq> k) ts"
proof (induction ts)
  case Nil
  show ?case by simp
next
  case (Cons a ts)
  show ?case
  proof (cases "tid a = k")
    case True
    with Cons.prems have "\<forall>t \<in> set ts. tid t \<noteq> k" by (force simp: image_iff)
    then have "filter (\<lambda>t. tid t \<noteq> k) ts = ts"
      by (induction ts) auto
    with True show ?thesis by simp
  next
    case False
    with Cons show ?thesis by simp
  qed
qed

lemma find_tid: "find (\<lambda>t. tid t = k) ts = Some v \<Longrightarrow> tid v = k \<and> v \<in> set ts"
  by (induction ts) (auto split: if_splits)

lemma findById_tasks_Some:
  "findById_tasks a d = Inr (Some v) \<Longrightarrow> cast_oid a = Some (tid v) \<and> v \<in> set (tasks d)"
  by (auto simp: findById_tasks_def split: option.splits dest: find_tid)

lemma cast_oid_nonempty: "cast_oid a = Some k \<Longrightarrow> k \<noteq> []"
  by (auto simp: cast_oid_def toLowerCase_def split: if_splits)

lemma distinct_map_if_uid:
  "(\<And>u. uid (f u) = uid u) \<Longrightarrow> map uid (map (\<lambda>u. if P u then f u else u) us) = map uid us"
  by (induction us) auto

lemma distinct_map_if_tid:
  "(\<And>t. tid (f t) = tid t) \<Longrightarrow> map tid (map (\<lambda>t. if P t then f t else t) ts) = map tid ts"
  by (induction ts) auto

lemma users_delete_effect_shape:
  assumes "users_delete_effect i d = Inr d'" and "distinct (map uid (users d))"
  shows "\<exists>u \<in> set (users d).
     d' = d\<lparr>tasks := map (\<lambda>t. if assignedUser t = uid u \<and> \<not> completed t then unassign t else t) (tasks d),
            users := filter (\<lambda>v. uid v \<noteq> uid u) (users d)\<rparr>"
  using assms(1) unfolding users_delete_effect_def
proof (elim effE)
  fix u :: user and d1
  assume f: "findById_users i d = Inr (Some u)"
    and a: "updateMany_tasks (\<lambda>t. assignedUser t = uid u \<and> \<not> completed t) unassign d = Inr d1"
    and b: "deleteOne_user (uid u) d1 = Inr d'"
  have "u \<in> set (users d)"
    using findById_users_Some [OF f] by simp
  moreover have "d' = d\<lparr>tasks := map (\<lambda>t. if assignedUser t = uid u \<and> \<not> completed t then unassign t else t) (tasks d),
            users := filter (\<lambda>v. uid v \<noteq> uid u) (users d)\<rparr>"
    using a b assms(2) by (auto simp: updateMany_tasks_def deleteOne_user_def delete_first_distinct_uid)
  ultimately show ?thesis by blast
qed

lemma users_delete_effect_wf:
  assumes "users_delete_effect i d = Inr d'" and "wf d"
  shows "wf d'"
proof -
  from assms(2) have dist: "distinct (map uid (users d))"
    by (simp add: wf_iff)
  from users_delete_effect_shape [OF assms(1) dist] obtain u where u: "u \<in> set (users d)"
    and d': "d' = d\<lparr>tasks := map (\<lambda>t. if assignedUser t = uid u \<and> \<not> completed t then unassign t else t) (tasks d),
            users := filter (\<lambda>v. uid v \<noteq> uid u) (users d)\<rparr>"
    by blast
  have I1: "I1_open d'"
    using users_delete_effect_I1_open [OF assms(1)] assms(2) by (simp add: wf_def)
  have ne: "\<forall>v \<in> set (users d). uid v \<noteq> []"
    using assms(2) cast_oid_nonempty by (auto simp: wf_iff)
  have tids: "map tid (tasks d') = map tid (tasks d)"
    unfolding d' by (simp add: unassign_def distinct_map_if_tid)
  then have tset: "tid ` set (tasks d') = tid ` set (tasks d)"
    by (metis set_map)
  have i2: "\<forall>t \<in> set (tasks d'). \<forall>v \<in> set (users d').
        (tid t \<in> set (pendingTasks v)) = (assignedUser t = uid v \<and> \<not> completed t)"
  proof (intro ballI)
    fix t' v assume t': "t' \<in> set (tasks d')" and v: "v \<in> set (users d')"
    from v d' have v0: "v \<in> set (users d)" "uid v \<noteq> uid u" by auto
    from t' d' obtain t where t: "t \<in> set (tasks d)"
      and e: "t' = (if assignedUser t = uid u \<and> \<not> completed t then unassign t else t)" by auto
    from assms(2) t v0(1) have old: "(tid t \<in> set (pendingTasks v)) = (assignedUser t = uid v \<and> \<not> completed t)"
      by (simp add: wf_iff)
    show "(tid t' \<in> set (pendingTasks v)) = (assignedUser t' = uid v \<and> \<not> completed t')"
    proof (cases "assignedUser t = uid u \<and> \<not> completed t")
      case True
      with e have "t' = unassign t" by simp
      with True old v0 ne show ?thesis by (auto simp: unassign_def)
    next
      case False
      with e have "t' = t" by simp
      with old show ?thesis by simp
    qed
  qed
  have us: "users d' = filter (\<lambda>v. uid v \<noteq> uid u) (users d)"
    unfolding d' by simp
  from assms(2) have old: "distinct (map uid (users d))" "distinct (map tid (tasks d))"
    "\<forall>v \<in> set (users d). cast_oid (uid v) = Some (uid v)"
    "\<forall>v \<in> set (users d). set (pendingTasks v) \<subseteq> tid ` set (tasks d)"
    by (simp_all add: wf_iff)
  have r1: "distinct (map uid (users d'))"
    unfolding us using old(1) by (simp add: distinct_map_filter)
  have r2: "distinct (map tid (tasks d'))"
    unfolding tids using old(2) .
  have r3: "\<forall>v \<in> set (users d'). cast_oid (uid v) = Some (uid v)"
    unfolding us using old(3) by simp
  have r4: "\<forall>v \<in> set (users d'). set (pendingTasks v) \<subseteq> tid ` set (tasks d')"
    unfolding us tset using old(4) by simp
  show ?thesis
    unfolding wf_iff using i2 r1 r2 r3 r4 I1 by (simp add: I1_open_iff)
qed

lemma tasks_delete_effect_shape:
  assumes "tasks_delete_effect i d = Inr d'" and "distinct (map uid (users d))"
    and "distinct (map tid (tasks d))"
  shows "\<exists>t \<in> set (tasks d).
     (assignedUser t = [] \<or> (\<exists>k. cast_oid (assignedUser t) = Some k \<and> k \<noteq> []))
     \<and> d' = d\<lparr>users := (if assignedUser t \<noteq> []
                       then map (\<lambda>u. if Some (uid u) = cast_oid (assignedUser t)
                                      then u\<lparr>pendingTasks := pull (tid t) (pendingTasks u)\<rparr> else u) (users d)
                       else users d),
              tasks := filter (\<lambda>x. tid x \<noteq> tid t) (tasks d)\<rparr>"
  using assms(1) unfolding tasks_delete_effect_def
proof (elim effE)
  fix t :: task and d1
  assume f: "findById_tasks i d = Inr (Some t)"
    and p: "(if assignedUser t \<noteq> []
                 then updateOne_user (assignedUser t)
                        (\<lambda>u. u\<lparr>pendingTasks := pull (tid t) (pendingTasks u)\<rparr>) d
                 else Inr d) = Inr d1"
    and q: "deleteOne_task (tid t) d1 = Inr d'"
  have tin: "t \<in> set (tasks d)"
    using findById_tasks_Some [OF f] by simp
  show ?thesis
  proof (cases "assignedUser t = []")
    case True
    with p q assms(3) tin show ?thesis
      by (auto simp: deleteOne_task_def delete_first_distinct_tid intro!: bexI [of _ t])
  next
    case False
    with p obtain k where k: "cast_oid (assignedUser t) = Some k"
      and d1: "d1 = d\<lparr>users := update_first (\<lambda>u. uid u = k)
                  (\<lambda>u. u\<lparr>pendingTasks := pull (tid t) (pendingTasks u)\<rparr>) (users d)\<rparr>"
      by (auto simp: updateOne_user_def split: option.splits)
    have "users d1 = map (\<lambda>u. if Some (uid u) = cast_oid (assignedUser t)
                                      then u\<lparr>pendingTasks := pull (tid t) (pendingTasks u)\<rparr> else u) (users d)"
      using d1 k assms(2) by (auto simp: update_first_distinct_uid)
    moreover have "tasks d1 = tasks d"
      using d1 by simp
    moreover have "d' = d1\<lparr>tasks := filter (\<lambda>x. tid x \<noteq> tid t) (tasks d1)\<rparr>"
      using q assms(3) d1 by (auto simp: deleteOne_task_def delete_first_distinct_tid)
    ultimately have "d' = d\<lparr>users := map (\<lambda>u. if Some (uid u) = cast_oid (assignedUser t)
                                      then u\<lparr>pendingTasks := pull (tid t) (pendingTasks u)\<rparr> else u) (users d),
              tasks := filter (\<lambda>x. tid x \<noteq> tid t) (tasks d)\<rparr>"
      using d1 by simp
    with False tin k cast_oid_nonempty [OF k] show ?thesis
      by (auto intro!: bexI [of _ t])
  qed
qed

lemma set_pull: "set (pull x xs) = set xs - {x}"
  by (auto simp: pull_def)

lemma set_addToSet: "set (addToSet x xs) = insert x (set xs)"
  by (auto simp: addToSet_def)

lemma set_pull_in: "set (pull_in vs xs) = set xs - set vs"
  by (auto simp: pull_in_def)

lemma tid_image_filter:
  "distinct (map tid ts) \<Longrightarrow> t \<in> set ts \<Longrightarrow>
   tid ` set (filter (\<lambda>x. tid x \<noteq> tid t) ts) = tid ` set ts - {tid t}"
  by auto

lemma tasks_delete_effect_wf:
  assumes "tasks_delete_effect i d = Inr d'" and "wf d"
  shows "wf d'"
proof -
  from assms(2) have old: "distinct (map uid (users d))" "distinct (map tid (tasks d))"
    "\<forall>v \<in> set (users d). cast_oid (uid v) = Some (uid v)"
    "\<forall>v \<in> set (users d). set (pendingTasks v) \<subseteq> tid ` set (tasks d)"
    "\<forall>t \<in> set (tasks d). \<forall>u \<in> set (users d).
        (tid t \<in> set (pendingTasks u)) = (assignedUser t = uid u \<and> \<not> completed t)"
    by (simp_all add: wf_iff)
  define g where "g = (\<lambda>(t :: task) (u :: user). if assignedUser t \<noteq> [] \<and> Some (uid u) = cast_oid (assignedUser t)
                            then u\<lparr>pendingTasks := pull (tid t) (pendingTasks u)\<rparr> else u)"
  from tasks_delete_effect_shape [OF assms(1) old(1,2)] obtain t where t: "t \<in> set (tasks d)"
    and us: "users d' = map (g t) (users d)"
    and ts: "tasks d' = filter (\<lambda>x. tid x \<noteq> tid t) (tasks d)"
    by (auto simp: g_def)
  have I1: "I1_open d'"
    using tasks_delete_effect_I1_open [OF assms(1)] assms(2) by (simp add: wf_def)
  have guid: "\<And>u. uid (g t u) = uid u"
    by (simp add: g_def)
  have gpend: "\<And>u. set (pendingTasks (g t u)) \<subseteq> set (pendingTasks u)"
    "\<And>u x. x \<noteq> tid t \<Longrightarrow> x \<in> set (pendingTasks (g t u)) \<longleftrightarrow> x \<in> set (pendingTasks u)"
    by (auto simp: g_def set_pull)
  have gone: "\<And>u. u \<in> set (users d) \<Longrightarrow> tid t \<notin> set (pendingTasks (g t u))"
  proof
    fix u assume u: "u \<in> set (users d)" and m: "tid t \<in> set (pendingTasks (g t u))"
    from m gpend(1) have "tid t \<in> set (pendingTasks u)" by blast
    with old(5) t u have a: "assignedUser t = uid u" by blast
    with old(3) u have "cast_oid (assignedUser t) = Some (uid u)" by simp
    moreover from this have "assignedUser t \<noteq> []"
      using a cast_oid_nonempty by fastforce
    ultimately have "g t u = u\<lparr>pendingTasks := pull (tid t) (pendingTasks u)\<rparr>"
      by (simp add: g_def)
    with m show False by (simp add: set_pull)
  qed
  have r1: "distinct (map uid (users d'))"
    unfolding us using old(1) guid by (simp add: comp_def)
  have r2: "distinct (map tid (tasks d'))"
    unfolding ts using old(2) by (simp add: distinct_map_filter)
  have r3: "\<forall>v \<in> set (users d'). cast_oid (uid v) = Some (uid v)"
    unfolding us using old(3) guid by auto
  have tset: "tid ` set (tasks d') = tid ` set (tasks d) - {tid t}"
    unfolding ts using tid_image_filter [OF old(2) t] .
  have r4: "\<forall>v \<in> set (users d'). set (pendingTasks v) \<subseteq> tid ` set (tasks d')"
  proof
    fix v assume "v \<in> set (users d')"
    then obtain u where u: "u \<in> set (users d)" and v: "v = g t u"
      unfolding us by auto
    from old(4) u gpend(1) [of u] have "set (pendingTasks v) \<subseteq> tid ` set (tasks d)"
      unfolding v by blast
    with gone [OF u] show "set (pendingTasks v) \<subseteq> tid ` set (tasks d')"
      unfolding tset v by blast
  qed
  have i2: "\<forall>x \<in> set (tasks d'). \<forall>v \<in> set (users d').
        (tid x \<in> set (pendingTasks v)) = (assignedUser x = uid v \<and> \<not> completed x)"
  proof (intro ballI)
    fix x v assume x: "x \<in> set (tasks d')" and "v \<in> set (users d')"
    then obtain u where u: "u \<in> set (users d)" and v: "v = g t u"
      unfolding us by auto
    from x have x0: "x \<in> set (tasks d)" "tid x \<noteq> tid t"
      unfolding ts by auto
    from gpend(2) [OF x0(2)] old(5) x0(1) u guid
    show "(tid x \<in> set (pendingTasks v)) = (assignedUser x = uid v \<and> \<not> completed x)"
      unfolding v by simp
  qed
  show ?thesis
    unfolding wf_iff using i2 r1 r2 r3 r4 I1 by (simp add: I1_open_iff)
qed

lemma resolve_pure_cases:
  assumes "resolve_pure a d = Inr (na, nn)" and "printed_ref (Some a)"
  shows "na = [] \<or> (na \<in> uid ` set (users d) \<and> cast_oid na = Some na)"
proof (cases "na = []")
  case False
  then obtain v where "findById_users a d = Inr (Some v)" "na = a"
    using assms(1) by (auto simp: resolve_pure_def split: if_splits sum.splits option.splits)
  moreover from this have "cast_oid a = Some (uid v)" "v \<in> set (users d)"
    using findById_users_Some by blast+
  ultimately show ?thesis
    using assms(2) by (auto simp: printed_ref_def str_or_empty_def)
qed simp

lemma tasks_post_effect_shape:
  assumes "tasks_post_effect nid now b d = Inr d'" and "distinct (map uid (users d))"
    and "printed_ref (tb_assignedUser b)"
  shows "\<exists>na nn. (na = [] \<or> na \<in> uid ` set (users d))
     \<and> nid \<notin> tid ` set (tasks d)
     \<and> tasks d' = tasks d @ [new_task nid now b na nn]
     \<and> users d' = map (\<lambda>u. if na \<noteq> [] \<and> \<not> toBoolean (tb_completed b) False \<and> uid u = na
                           then u\<lparr>pendingTasks := addToSet nid (pendingTasks u)\<rparr> else u) (users d)"
  using assms(1) unfolding tasks_post_effect_def
proof (elim effE)
  fix x na nn d1
  assume r0: "resolve_pure (str_or_empty (tb_assignedUser b)) d = Inr x" and x: "x = (na, nn)"
    and c: "create_task (new_task nid now b na nn) d = Inr d1"
    and u: "(if na \<noteq> [] \<and> \<not> toBoolean (tb_completed b) False
     then updateOne_user na (\<lambda>u. u\<lparr>pendingTasks := addToSet nid (pendingTasks u)\<rparr>) d1
     else Inr d1) = Inr d'"
  have r: "resolve_pure (str_or_empty (tb_assignedUser b)) d = Inr (na, nn)"
    using r0 x by simp
  have na: "na = [] \<or> (na \<in> uid ` set (users d) \<and> cast_oid na = Some na)"
    using resolve_pure_cases [OF r printed_ref_str [OF assms(3)]] .
  have d1: "nid \<notin> tid ` set (tasks d)" "d1 = d\<lparr>tasks := tasks d @ [new_task nid now b na nn]\<rparr>"
    using c by (auto simp: create_task_def new_task_def split: if_splits)
  have "tasks d' = tasks d @ [new_task nid now b na nn]
     \<and> users d' = map (\<lambda>u. if na \<noteq> [] \<and> \<not> toBoolean (tb_completed b) False \<and> uid u = na
                           then u\<lparr>pendingTasks := addToSet nid (pendingTasks u)\<rparr> else u) (users d)"
  proof (cases "na \<noteq> [] \<and> \<not> toBoolean (tb_completed b) False")
    case True
    with na have k: "cast_oid na = Some na" by simp
    from True u k have "d' = d1\<lparr>users := update_first (\<lambda>u. uid u = na)
          (\<lambda>u. u\<lparr>pendingTasks := addToSet nid (pendingTasks u)\<rparr>) (users d1)\<rparr>"
      by (simp add: updateOne_user_def)
    with d1(2) True assms(2) show ?thesis
      by (simp add: update_first_distinct_uid)
  next
    case False
    with u have "d' = d1" by (simp split: if_splits)
    moreover from False have "map (\<lambda>u. if na \<noteq> [] \<and> \<not> toBoolean (tb_completed b) False \<and> uid u = na
                           then u\<lparr>pendingTasks := addToSet nid (pendingTasks u)\<rparr> else u) (users d) = users d"
      by (induction "users d") auto
    ultimately show ?thesis using d1(2) by simp
  qed
  with na d1(1) show ?thesis by blast
qed

lemma tasks_post_effect_wf:
  assumes "tasks_post_effect nid now b d = Inr d'" and "wf d" and "printed_ref (tb_assignedUser b)"
  shows "wf d'"
proof -
  from assms(2) have old: "distinct (map uid (users d))" "distinct (map tid (tasks d))"
    "\<forall>v \<in> set (users d). cast_oid (uid v) = Some (uid v)"
    "\<forall>v \<in> set (users d). set (pendingTasks v) \<subseteq> tid ` set (tasks d)"
    "\<forall>t \<in> set (tasks d). \<forall>u \<in> set (users d).
        (tid t \<in> set (pendingTasks u)) = (assignedUser t = uid u \<and> \<not> completed t)"
    by (simp_all add: wf_iff)
  let ?c = "toBoolean (tb_completed b) False"
  from tasks_post_effect_shape [OF assms(1) old(1) assms(3)] obtain na nn where
    fresh: "nid \<notin> tid ` set (tasks d)"
    and ts: "tasks d' = tasks d @ [new_task nid now b na nn]"
    and us: "users d' = map (\<lambda>u. if na \<noteq> [] \<and> \<not> ?c \<and> uid u = na
                           then u\<lparr>pendingTasks := addToSet nid (pendingTasks u)\<rparr> else u) (users d)"
    by blast
  define g where "g = (\<lambda>u :: user. if na \<noteq> [] \<and> \<not> ?c \<and> uid u = na
                           then u\<lparr>pendingTasks := addToSet nid (pendingTasks u)\<rparr> else u)"
  have us': "users d' = map g (users d)"
    using us by (simp add: g_def)
  have I1: "I1_open d'"
    using tasks_post_effect_I1_open [OF assms(1) _ assms(3)] assms(2) by (simp add: wf_def)
  have guid: "\<And>u. uid (g u) = uid u"
    by (simp add: g_def)
  have gpend: "\<And>u. set (pendingTasks (g u)) =
      (if na \<noteq> [] \<and> \<not> ?c \<and> uid u = na then insert nid (set (pendingTasks u)) else set (pendingTasks u))"
    by (simp add: g_def set_addToSet)
  have ne: "\<And>u. u \<in> set (users d) \<Longrightarrow> uid u \<noteq> []"
    using old(3) cast_oid_nonempty by fastforce
  have nopend: "\<And>u. u \<in> set (users d) \<Longrightarrow> nid \<notin> set (pendingTasks u)"
    using old(4) fresh by blast
  have r1: "distinct (map uid (users d'))"
    unfolding us' using old(1) guid by (simp add: comp_def)
  have r2: "distinct (map tid (tasks d'))"
    unfolding ts using old(2) fresh by (simp add: new_task_def)
  have r3: "\<forall>v \<in> set (users d'). cast_oid (uid v) = Some (uid v)"
    unfolding us' using old(3) guid by auto
  have r4: "\<forall>v \<in> set (users d'). set (pendingTasks v) \<subseteq> tid ` set (tasks d')"
  proof
    fix v assume "v \<in> set (users d')"
    then obtain u where u: "u \<in> set (users d)" and v: "v = g u"
      unfolding us' by auto
    from old(4) u show "set (pendingTasks v) \<subseteq> tid ` set (tasks d')"
      unfolding v gpend ts by (auto simp: new_task_def)
  qed
  have i2: "\<forall>x \<in> set (tasks d'). \<forall>v \<in> set (users d').
        (tid x \<in> set (pendingTasks v)) = (assignedUser x = uid v \<and> \<not> completed x)"
  proof (intro ballI)
    fix x v assume x: "x \<in> set (tasks d')" and "v \<in> set (users d')"
    then obtain u where u: "u \<in> set (users d)" and v: "v = g u"
      unfolding us' by auto
    from x ts have "x \<in> set (tasks d) \<or> x = new_task nid now b na nn" by auto
    then show "(tid x \<in> set (pendingTasks v)) = (assignedUser x = uid v \<and> \<not> completed x)"
    proof
      assume x0: "x \<in> set (tasks d)"
      then have "tid x \<noteq> nid" using fresh by auto
      with old(5) x0 u show ?thesis
        unfolding v gpend guid by auto
    next
      assume xn: "x = new_task nid now b na nn"
      from nopend [OF u] ne [OF u] show ?thesis
        unfolding v gpend guid xn by (auto simp: new_task_def)
    qed
  qed
  show ?thesis
    unfolding wf_iff using i2 r1 r2 r3 r4 I1 by (simp add: I1_open_iff)
qed

lemma map_id_if: "(\<And>x. x \<in> set xs \<Longrightarrow> f x = x) \<Longrightarrow> map f xs = xs"
  by (induction xs) auto

lemma updateOne_user_shape:
  assumes "updateOne_user a f d = Inr d'" and "distinct (map uid (users d))"
  shows "tasks d' = tasks d \<and> users d' = map (\<lambda>u. if cast_oid a = Some (uid u) then f u else u) (users d)"
  using assms by (auto simp: updateOne_user_def update_first_distinct_uid split: option.splits)

lemma tasks_put_effect_shape:
  assumes "tasks_put_effect i b d = Inr d'" and "distinct (map uid (users d))"
    and "distinct (map tid (tasks d))" and "printed_ref (tb_assignedUser b)"
  shows "\<exists>cur \<in> set (tasks d). \<exists>na nn.
     (na = [] \<or> (na \<in> uid ` set (users d) \<and> cast_oid na = Some na))
     \<and> tasks d' = map (\<lambda>t. if tid t = tid cur then put_task b na nn (tdateCreated cur) t else t) (tasks d)
     \<and> users d' = map (put_new (toBoolean (tb_completed b) False) na (tid cur)
                        \<circ> put_prev (assignedUser cur) na (tid cur)) (users d)"
  using assms(1) unfolding tasks_put_effect_def
proof (elim effE)
  fix cur updated :: task and x na nn d1 d2
  assume f: "findById_tasks i d = Inr (Some cur)"
    and r0: "resolve_pure (str_or_empty (tb_assignedUser b)) d = Inr x" and x: "x = (na, nn)"
    and o: "overwrite_task i (str_or_empty (tb_name b)) (str_or_empty (tb_description b))
                   (case tb_deadline b of None \<Rightarrow> 0 | Some x \<Rightarrow> x)
                   (toBoolean (tb_completed b) False) na
                   (if na \<noteq> [] then nn else ''unassigned'')
                   (tdateCreated cur) d = Inr d1"
    and f1: "findById_tasks i d1 = Inr (Some updated)"
    and p: "(if assignedUser cur \<noteq> [] \<and> assignedUser cur \<noteq> na
                      then updateOne_user (assignedUser cur)
                             (\<lambda>u. u\<lparr>pendingTasks := pull (tid updated) (pendingTasks u)\<rparr>) d1
                      else Inr d1) = Inr d2"
    and q: "(if na \<noteq> [] then
                 (if toBoolean (tb_completed b) False
                  then updateOne_user na
                         (\<lambda>u. u\<lparr>pendingTasks := pull (tid updated) (pendingTasks u)\<rparr>) d2
                  else updateOne_user na
                         (\<lambda>u. u\<lparr>pendingTasks := addToSet (tid updated) (pendingTasks u)\<rparr>) d2)
               else Inr d2) = Inr d'"
  let ?c = "toBoolean (tb_completed b) False"
  let ?k = "tid cur"
  have r: "resolve_pure (str_or_empty (tb_assignedUser b)) d = Inr (na, nn)"
    using r0 x by simp
  have na: "na = [] \<or> (na \<in> uid ` set (users d) \<and> cast_oid na = Some na)"
    using resolve_pure_cases [OF r printed_ref_str [OF assms(4)]] .
  have cur: "cast_oid i = Some ?k" "cur \<in> set (tasks d)"
    using findById_tasks_Some [OF f] by simp_all
  have upd: "tid updated = ?k"
    using findById_tasks_Some [OF f1] cur(1) by simp
  have d1: "users d1 = users d"
    "tasks d1 = map (\<lambda>t. if tid t = ?k then put_task b na nn (tdateCreated cur) t else t) (tasks d)"
    using o cur(1) assms(3) by (auto simp: overwrite_task_def update_first_distinct_tid put_task_def)
  have d2: "tasks d2 = tasks d1" "users d2 = map (put_prev (assignedUser cur) na ?k) (users d)"
  proof -
    show "tasks d2 = tasks d1"
      using p updateOne_user_shape [of _ _ d1 d2] assms(2) d1(1) by (auto split: if_splits)
    show "users d2 = map (put_prev (assignedUser cur) na ?k) (users d)"
    proof (cases "assignedUser cur \<noteq> [] \<and> assignedUser cur \<noteq> na")
      case True
      with p have "updateOne_user (assignedUser cur)
                             (\<lambda>u. u\<lparr>pendingTasks := pull ?k (pendingTasks u)\<rparr>) d1 = Inr d2"
        using upd by simp
      from updateOne_user_shape [OF this] assms(2) d1(1) True show ?thesis
        by (simp add: put_prev_def)
    next
      case False
      with p have "d2 = d1" by (simp split: if_splits)
      moreover from False have "map (put_prev (assignedUser cur) na ?k) (users d) = users d"
        by (intro map_id_if) (auto simp: put_prev_def)
      ultimately show ?thesis using d1(1) by simp
    qed
  qed
  have dist2: "distinct (map uid (users d2))"
    unfolding d2(2) using assms(2) by (simp add: comp_def put_prev_def if_distrib cong: if_cong)
  have d': "tasks d' = tasks d2" "users d' = map (put_new ?c na ?k) (users d2)"
  proof -
    show "tasks d' = tasks d2"
      using q updateOne_user_shape [of _ _ d2 d'] dist2 by (auto split: if_splits)
    show "users d' = map (put_new ?c na ?k) (users d2)"
    proof (cases "na \<noteq> []")
      case True
      with na have k: "cast_oid na = Some na" by simp
      show ?thesis
      proof (cases ?c)
        case c: True
        with True q have "updateOne_user na
                         (\<lambda>u. u\<lparr>pendingTasks := pull ?k (pendingTasks u)\<rparr>) d2 = Inr d'"
          using upd by simp
        from updateOne_user_shape [OF this dist2] True c k show ?thesis
          by (simp add: put_new_def)
      next
        case c: False
        with True q have "updateOne_user na
                         (\<lambda>u. u\<lparr>pendingTasks := addToSet ?k (pendingTasks u)\<rparr>) d2 = Inr d'"
          using upd by simp
        from updateOne_user_shape [OF this dist2] True c k show ?thesis
          by (simp add: put_new_def)
      qed
    next
      case False
      with q have "d' = d2" by simp
      moreover from False have "map (put_new ?c na ?k) (users d2) = users d2"
        by (intro map_id_if) (auto simp: put_new_def)
      ultimately show ?thesis by simp
    qed
  qed
  have "tasks d' = map (\<lambda>t. if tid t = ?k then put_task b na nn (tdateCreated cur) t else t) (tasks d)
     \<and> users d' = map (put_new ?c na ?k \<circ> put_prev (assignedUser cur) na ?k) (users d)"
    using d' d2 d1 by simp
  with na cur(2) show ?thesis by blast
qed

lemma tasks_put_effect_wf:
  assumes "tasks_put_effect i b d = Inr d'" and "wf d" and "printed_ref (tb_assignedUser b)"
  shows "wf d'"
proof -
  from assms(2) have old: "distinct (map uid (users d))" "distinct (map tid (tasks d))"
    "\<forall>v \<in> set (users d). cast_oid (uid v) = Some (uid v)"
    "\<forall>v \<in> set (users d). set (pendingTasks v) \<subseteq> tid ` set (tasks d)"
    "\<forall>t \<in> set (tasks d). \<forall>u \<in> set (users d).
        (tid t \<in> set (pendingTasks u)) = (assignedUser t = uid u \<and> \<not> completed t)"
    by (simp_all add: wf_iff)
  let ?c = "toBoolean (tb_completed b) False"
  from tasks_put_effect_shape [OF assms(1) old(1,2) assms(3)] obtain cur na nn where
    cur: "cur \<in> set (tasks d)"
    and ts: "tasks d' = map (\<lambda>t. if tid t = tid cur then put_task b na nn (tdateCreated cur) t else t) (tasks d)"
    and us: "users d' = map (put_new ?c na (tid cur) \<circ> put_prev (assignedUser cur) na (tid cur)) (users d)"
    by blast
  define g where "g = put_new ?c na (tid cur) \<circ> put_prev (assignedUser cur) na (tid cur)"
  have us': "users d' = map g (users d)"
    using us by (simp add: g_def)
  have I1: "I1_open d'"
    using tasks_put_effect_I1_open [OF assms(1) _ assms(3)] assms(2) by (simp add: wf_def)
  have guid: "\<And>u. uid (g u) = uid u"
    by (simp add: g_def put_new_def put_prev_def)
  have gother: "\<And>u x. x \<noteq> tid cur \<Longrightarrow> x \<in> set (pendingTasks (g u)) \<longleftrightarrow> x \<in> set (pendingTasks u)"
    by (auto simp: g_def put_new_def put_prev_def set_pull set_addToSet)
  have gsub: "\<And>u. set (pendingTasks (g u)) \<subseteq> insert (tid cur) (set (pendingTasks u))"
    by (auto simp: g_def put_new_def put_prev_def set_pull set_addToSet)
  have ne: "\<And>u. u \<in> set (users d) \<Longrightarrow> uid u \<noteq> []"
    using old(3) cast_oid_nonempty by fastforce
  have gk: "\<And>u. u \<in> set (users d) \<Longrightarrow>
      tid cur \<in> set (pendingTasks (g u)) \<longleftrightarrow> na = uid u \<and> \<not> ?c"
  proof -
    fix u assume u: "u \<in> set (users d)"
    show "tid cur \<in> set (pendingTasks (g u)) \<longleftrightarrow> na = uid u \<and> \<not> ?c"
    proof (cases "na = uid u")
      case True
      with ne [OF u] show ?thesis
        by (auto simp: g_def put_new_def put_prev_def set_pull set_addToSet)
    next
      case False
      have "tid cur \<notin> set (pendingTasks (put_prev (assignedUser cur) na (tid cur) u))"
      proof
        assume m: "tid cur \<in> set (pendingTasks (put_prev (assignedUser cur) na (tid cur) u))"
        then have "tid cur \<in> set (pendingTasks u)"
          by (auto simp: put_prev_def set_pull split: if_splits)
        with old(5) cur u have a: "assignedUser cur = uid u" by blast
        with old(3) u ne [OF u] False have "assignedUser cur \<noteq> [] \<and> assignedUser cur \<noteq> na
            \<and> cast_oid (assignedUser cur) = Some (uid u)"
          by auto
        with m show False
          by (simp add: put_prev_def set_pull)
      qed
      moreover have "uid (put_prev (assignedUser cur) na (tid cur) u) = uid u"
        by (simp add: put_prev_def)
      ultimately show ?thesis
        using False by (simp add: g_def put_new_def)
    qed
  qed
  have tids: "map tid (tasks d') = map tid (tasks d)"
    unfolding ts by (simp add: put_task_def distinct_map_if_tid)
  then have tset: "tid ` set (tasks d') = tid ` set (tasks d)"
    by (metis set_map)
  have r1: "distinct (map uid (users d'))"
    unfolding us' using old(1) guid by (simp add: comp_def)
  have r2: "distinct (map tid (tasks d'))"
    unfolding tids using old(2) .
  have r3: "\<forall>v \<in> set (users d'). cast_oid (uid v) = Some (uid v)"
    unfolding us' using old(3) guid by auto
  have r4: "\<forall>v \<in> set (users d'). set (pendingTasks v) \<subseteq> tid ` set (tasks d')"
  proof
    fix v assume "v \<in> set (users d')"
    then obtain u where u: "u \<in> set (users d)" and v: "v = g u"
      unfolding us' by auto
    from old(4) u gsub [of u] cur show "set (pendingTasks v) \<subseteq> tid ` set (tasks d')"
      unfolding v tset by blast
  qed
  have i2: "\<forall>x \<in> set (tasks d'). \<forall>v \<in> set (users d').
        (tid x \<in> set (pendingTasks v)) = (assignedUser x = uid v \<and> \<not> completed x)"
  proof (intro ballI)
    fix x v assume x: "x \<in> set (tasks d')" and "v \<in> set (users d')"
    then obtain u where u: "u \<in> set (users d)" and v: "v = g u"
      unfolding us' by auto
    from x ts obtain t where t: "t \<in> set (tasks d)"
      and xe: "x = (if tid t = tid cur then put_task b na nn (tdateCreated cur) t else t)"
      by auto
    show "(tid x \<in> set (pendingTasks v)) = (assignedUser x = uid v \<and> \<not> completed x)"
    proof (cases "tid t = tid cur")
      case True
      with xe have "x = put_task b na nn (tdateCreated cur) t" by simp
      with True gk [OF u] show ?thesis
        unfolding v guid by (auto simp: put_task_def)
    next
      case False
      with xe have "x = t" by simp
      with False gother [of "tid t" u] old(5) t u show ?thesis
        unfolding v guid by simp
    qed
  qed
  show ?thesis
    unfolding wf_iff using i2 r1 r2 r3 r4 I1 by (simp add: I1_open_iff)
qed

lemma pull_in_id: "(\<forall>x \<in> set xs. x \<notin> set vs) \<Longrightarrow> pull_in vs xs = xs"
  by (simp add: pull_in_def)

lemma find_pending_ids_facts:
  assumes "find_pending_ids pend d = Inr valid" and "distinct (map tid (tasks d))"
  shows "set valid \<subseteq> tid ` set (tasks d)"
    and "\<And>t. t \<in> set (tasks d) \<Longrightarrow> tid t \<in> set valid \<Longrightarrow> \<not> completed t"
proof -
  from assms(1) obtain ks where v: "valid = remdups (map tid (filter (\<lambda>t. tid t \<in> set ks \<and> \<not> completed t) (tasks d)))"
    by (auto simp: find_pending_ids_def split: option.splits)
  show "set valid \<subseteq> tid ` set (tasks d)"
    unfolding v by auto
  fix t assume t: "t \<in> set (tasks d)" and m: "tid t \<in> set valid"
  from m obtain t1 where t1: "t1 \<in> set (tasks d)" "tid t1 = tid t" "\<not> completed t1"
    unfolding v by auto
  from assms(2) t t1(1,2) have "t1 = t"
    by (meson distinct_map inj_onD)
  with t1(3) show "\<not> completed t" by simp
qed

lemma valid_of_facts:
  assumes "valid_of pend d = Inr valid" and "distinct (map tid (tasks d))"
  shows "set valid \<subseteq> tid ` set (tasks d)"
    and "\<And>t. t \<in> set (tasks d) \<Longrightarrow> tid t \<in> set valid \<Longrightarrow> \<not> completed t"
proof -
  have "valid = [] \<or> find_pending_ids pend d = Inr valid"
    using assms(1) by (auto simp: valid_of_def split: if_splits)
  then show "set valid \<subseteq> tid ` set (tasks d)"
    using find_pending_ids_facts(1) [OF _ assms(2)] by auto
  fix t assume t: "t \<in> set (tasks d)" and m: "tid t \<in> set valid"
  from m have "valid \<noteq> []" by auto
  with \<open>valid = [] \<or> find_pending_ids pend d = Inr valid\<close> have "find_pending_ids pend d = Inr valid"
    by simp
  from find_pending_ids_facts(2) [OF this assms(2) t m] show "\<not> completed t" .
qed

lemma take_over_shape:
  assumes "take_over k n valid d = Inr d'"
  shows "tasks d' = map (claim_task k n valid) (tasks d) \<and> users d' = map (yield_user k valid) (users d)"
  using assms unfolding take_over_def
proof (elim effE)
  fix d2
  assume a: "updateMany_tasks (\<lambda>t. tid t \<in> set valid) (assign k n) d = Inr d2"
    and b: "updateMany_users (\<lambda>u. uid u \<noteq> k \<and> (\<exists>x \<in> set (pendingTasks u). x \<in> set valid))
                     (\<lambda>u. u\<lparr>pendingTasks := pull_in valid (pendingTasks u)\<rparr>) d2 = Inr d'"
  have ts: "tasks d' = map (claim_task k n valid) (tasks d)"
    using a b by (auto simp: updateMany_tasks_def updateMany_users_def claim_task_def)
  have "users d' = map (\<lambda>u. if uid u \<noteq> k \<and> (\<exists>x \<in> set (pendingTasks u). x \<in> set valid)
          then u\<lparr>pendingTasks := pull_in valid (pendingTasks u)\<rparr> else u) (users d)"
    using a b by (auto simp: updateMany_tasks_def updateMany_users_def)
  also have "\<dots> = map (yield_user k valid) (users d)"
  proof (rule map_cong [OF refl])
    fix u assume "u \<in> set (users d)"
    show "(if uid u \<noteq> k \<and> (\<exists>x \<in> set (pendingTasks u). x \<in> set valid)
          then u\<lparr>pendingTasks := pull_in valid (pendingTasks u)\<rparr> else u) = yield_user k valid u"
    proof (cases "\<exists>x \<in> set (pendingTasks u). x \<in> set valid")
      case True
      then show ?thesis by (simp add: yield_user_def)
    next
      case False
      then have "pull_in valid (pendingTasks u) = pendingTasks u"
        by (simp add: pull_in_id)
      with False show ?thesis by (simp add: yield_user_def)
    qed
  qed
  finally show "tasks d' = map (claim_task k n valid) (tasks d) \<and> users d' = map (yield_user k valid) (users d)"
    using ts by simp
qed

lemma take_over_or_not_shape:
  assumes "(if valid \<noteq> [] then take_over k n valid d else Inr d) = Inr d'"
  shows "tasks d' = map (claim_task k n valid) (tasks d) \<and> users d' = map (yield_user k valid) (users d)"
proof (cases "valid \<noteq> []")
  case True
  with assms take_over_shape show ?thesis by simp
next
  case False
  then have "map (claim_task k n valid) (tasks d) = tasks d" "map (yield_user k valid) (users d) = users d"
    by (auto intro!: map_id_if simp: claim_task_def yield_user_def pull_in_def)
  with False assms show ?thesis by simp
qed

lemma users_put_effect_shape:
  assumes "users_put_effect i b d = Inr d'" and "distinct (map uid (users d))"
    and "distinct (map tid (tasks d))"
  shows "\<exists>user \<in> set (users d). \<exists>valid.
     cast_oid i = Some (uid user)
     \<and> set valid \<subseteq> tid ` set (tasks d)
     \<and> (\<forall>t \<in> set (tasks d). tid t \<in> set valid \<longrightarrow> \<not> completed t)
     \<and> tasks d' = map (claim_task (uid user) (str_or_empty (b_name b)) valid \<circ> release_task (uid user)) (tasks d)
     \<and> users d' = map (put_user (uid user) (str_or_empty (b_name b)) (str_or_empty (b_email b)) valid
                          (udateCreated user)) (users d)"
  using assms(1) unfolding users_put_effect_def
proof (elim effE)
  fix user :: user and d1 valid d2
  assume f: "findById_users i d = Inr (Some user)"
    and a: "updateMany_tasks (\<lambda>t. assignedUser t = uid user \<and> \<not> completed t) unassign d = Inr d1"
    and v: "valid_of (case b_pendingTasks b of None \<Rightarrow> [] | Some l \<Rightarrow> l) d1 = Inr valid"
    and m: "(if valid \<noteq> [] then take_over (uid user) (str_or_empty (b_name b)) valid d1
                 else Inr d1) = Inr d2"
    and o: "overwrite_user i (str_or_empty (b_name b)) (str_or_empty (b_email b)) valid
            (udateCreated user) d2 = Inr d'"
  let ?k = "uid user"
  let ?n = "str_or_empty (b_name b)"
  have u: "cast_oid i = Some ?k" "user \<in> set (users d)"
    using findById_users_Some [OF f] by simp_all
  have d1: "users d1 = users d" "tasks d1 = map (release_task ?k) (tasks d)"
    using a by (auto simp: updateMany_tasks_def release_task_def)
  have tid1: "map tid (tasks d1) = map tid (tasks d)"
    unfolding d1(2) by (simp add: release_task_def unassign_def if_distrib comp_def cong: if_cong)
  then have dist1: "distinct (map tid (tasks d1))"
    using assms(3) by simp
  have tset1: "tid ` set (tasks d1) = tid ` set (tasks d)"
    using tid1 by (metis set_map)
  have v1: "set valid \<subseteq> tid ` set (tasks d)"
    using valid_of_facts(1) [OF v dist1] tset1 by simp
  have v2: "\<forall>t \<in> set (tasks d). tid t \<in> set valid \<longrightarrow> \<not> completed t"
  proof (intro ballI impI)
    fix t assume t: "t \<in> set (tasks d)" and m: "tid t \<in> set valid"
    have "release_task ?k t \<in> set (tasks d1)" using t d1(2) by simp
    moreover have "tid (release_task ?k t) = tid t" "completed (release_task ?k t) = completed t"
      by (simp_all add: release_task_def unassign_def)
    ultimately show "\<not> completed t"
      using valid_of_facts(2) [OF v dist1, of "release_task ?k t"] m by simp
  qed
  have d2: "tasks d2 = map (claim_task ?k ?n valid) (tasks d1)"
    "users d2 = map (yield_user ?k valid) (users d1)"
    using take_over_or_not_shape [OF m] by simp_all
  have dist2: "distinct (map uid (users d2))"
    unfolding d2(2) d1(1) using assms(2)
    by (simp add: yield_user_def if_distrib comp_def cong: if_cong)
  have d': "tasks d' = tasks d2"
    "users d' = map (\<lambda>u. if uid u = ?k then \<lparr>uid = uid u, uname = ?n,
             email = normalize_email (str_or_empty (b_email b)),
             pendingTasks = valid, udateCreated = udateCreated user\<rparr> else u) (users d2)"
    using o u(1) dist2 by (auto simp: overwrite_user_def update_first_distinct_uid split: if_splits)
  have us: "users d' = map (put_user ?k ?n (str_or_empty (b_email b)) valid (udateCreated user)) (users d)"
    unfolding d'(2) d2(2) d1(1)
    by (auto simp: put_user_def yield_user_def)
  have ts: "tasks d' = map (claim_task ?k ?n valid \<circ> release_task ?k) (tasks d)"
    unfolding d'(1) d2(1) d1(2) by simp
  from u v1 v2 ts us show ?thesis by blast
qed

lemma users_put_effect_wf:
  assumes "users_put_effect i b d = Inr d'" and "wf d"
  shows "wf d'"
proof -
  from assms(2) have old: "distinct (map uid (users d))" "distinct (map tid (tasks d))"
    "\<forall>v \<in> set (users d). cast_oid (uid v) = Some (uid v)"
    "\<forall>v \<in> set (users d). set (pendingTasks v) \<subseteq> tid ` set (tasks d)"
    "\<forall>t \<in> set (tasks d). \<forall>u \<in> set (users d).
        (tid t \<in> set (pendingTasks u)) = (assignedUser t = uid u \<and> \<not> completed t)"
    by (simp_all add: wf_iff)
  from users_put_effect_shape [OF assms(1) old(1,2)] obtain user valid n e dc where
    user: "user \<in> set (users d)"
    and v1: "set valid \<subseteq> tid ` set (tasks d)"
    and v2: "\<forall>t \<in> set (tasks d). tid t \<in> set valid \<longrightarrow> \<not> completed t"
    and ts: "tasks d' = map (claim_task (uid user) n valid \<circ> release_task (uid user)) (tasks d)"
    and us: "users d' = map (put_user (uid user) n e valid dc) (users d)"
    by blast
  let ?k = "uid user"
  define g where "g = put_user ?k n e valid dc"
  define h where "h = claim_task ?k n valid \<circ> release_task ?k"
  have us': "users d' = map g (users d)" and ts': "tasks d' = map h (tasks d)"
    using us ts by (simp_all add: g_def h_def)
  have I1: "I1_open d'"
    using users_put_effect_I1_open [OF assms(1)] assms(2) by (simp add: wf_def)
  have kne: "?k \<noteq> []"
    using old(3) user cast_oid_nonempty by fastforce
  have guid: "\<And>u. uid (g u) = uid u"
    by (simp add: g_def put_user_def)
  have gpend: "\<And>u. set (pendingTasks (g u)) = (if uid u = ?k then set valid else set (pendingTasks u) - set valid)"
    by (simp add: g_def put_user_def set_pull_in)
  have htid: "\<And>t. tid (h t) = tid t" and hcomp: "\<And>t. completed (h t) = completed t"
    by (simp_all add: h_def claim_task_def release_task_def assign_def unassign_def)
  have hass: "\<And>t. assignedUser (h t) =
      (if tid t \<in> set valid then ?k else if assignedUser t = ?k \<and> \<not> completed t then [] else assignedUser t)"
    by (simp add: h_def claim_task_def release_task_def assign_def unassign_def)
  have tids: "map tid (tasks d') = map tid (tasks d)"
    unfolding ts' using htid by (simp add: comp_def)
  then have tset: "tid ` set (tasks d') = tid ` set (tasks d)"
    by (metis set_map)
  have r1: "distinct (map uid (users d'))"
    unfolding us' using old(1) guid by (simp add: comp_def)
  have r2: "distinct (map tid (tasks d'))"
    unfolding tids using old(2) .
  have r3: "\<forall>v \<in> set (users d'). cast_oid (uid v) = Some (uid v)"
    unfolding us' using old(3) guid by auto
  have r4: "\<forall>v \<in> set (users d'). set (pendingTasks v) \<subseteq> tid ` set (tasks d')"
  proof
    fix v assume "v \<in> set (users d')"
    then obtain u where u: "u \<in> set (users d)" and v: "v = g u"
      unfolding us' by auto
    from old(4) u v1 show "set (pendingTasks v) \<subseteq> tid ` set (tasks d')"
      unfolding v gpend tset by auto
  qed
  have i2: "\<forall>x \<in> set (tasks d'). \<forall>v \<in> set (users d').
        (tid x \<in> set (pendingTasks v)) = (assignedUser x = uid v \<and> \<not> completed x)"
  proof (intro ballI)
    fix x v assume "x \<in> set (tasks d')" and "v \<in> set (users d')"
    then obtain u t where u: "u \<in> set (users d)" and v: "v = g u"
      and t: "t \<in> set (tasks d)" and x: "x = h t"
      unfolding us' ts' by auto
    from old(5) t u have o: "(tid t \<in> set (pendingTasks u)) = (assignedUser t = uid u \<and> \<not> completed t)"
      by blast
    from v2 t have vo: "tid t \<in> set valid \<Longrightarrow> \<not> completed t"
      by blast
    have une: "uid u \<noteq> []"
      using old(3) u cast_oid_nonempty by fastforce
    show "(tid x \<in> set (pendingTasks v)) = (assignedUser x = uid v \<and> \<not> completed x)"
      unfolding v x gpend guid htid hcomp hass
      using o vo kne une by auto
  qed
  show ?thesis
    unfolding wf_iff using i2 r1 r2 r3 r4 I1 by (simp add: I1_open_iff)
qed

lemma users_post_effect_shape:
  assumes "users_post_effect nid now b d = Inr d'" and "distinct (map uid (users d))"
    and "distinct (map tid (tasks d))" and "cast_oid nid = Some nid"
  shows "\<exists>valid.
     nid \<notin> uid ` set (users d)
     \<and> set valid \<subseteq> tid ` set (tasks d)
     \<and> (\<forall>t \<in> set (tasks d). tid t \<in> set valid \<longrightarrow> \<not> completed t)
     \<and> tasks d' = map (claim_task nid (str_or_empty (b_name b)) valid) (tasks d)
     \<and> users d' = map (post_user nid valid) (users d @ [new_user nid now b])"
  using assms(1) unfolding users_post_effect_def
proof (elim effE)
  fix d1 valid
  assume c: "create_user (new_user nid now b) d = Inr d1"
    and v: "valid_of (pendingTasks (new_user nid now b)) d1 = Inr valid"
    and rest: "(if valid \<noteq> [] then
       sbind (take_over nid (str_or_empty (b_name b)) valid d1) (\<lambda>d3.
       updateOne_user nid (\<lambda>u. u\<lparr>pendingTasks := valid\<rparr>) d3)
     else updateOne_user nid (\<lambda>u. u\<lparr>pendingTasks := []\<rparr>) d1) = Inr d'"
  let ?n = "str_or_empty (b_name b)"
  let ?N = "new_user nid now b"
  have fresh: "nid \<notin> uid ` set (users d)"
    using c by (auto simp: create_user_def new_user_def split: if_splits)
  have d1: "users d1 = users d @ [?N]" "tasks d1 = tasks d"
    using c by (auto simp: create_user_def split: if_splits)
  have dist1: "distinct (map uid (users d1))"
    unfolding d1(1) using assms(2) fresh by (simp add: new_user_def)
  have v1: "set valid \<subseteq> tid ` set (tasks d)"
    and v2: "\<forall>t \<in> set (tasks d). tid t \<in> set valid \<longrightarrow> \<not> completed t"
    using valid_of_facts [OF v] assms(3) d1(2) by auto
  obtain d3 where m: "(if valid \<noteq> [] then take_over nid ?n valid d1 else Inr d1) = Inr d3"
    and u: "updateOne_user nid (\<lambda>u. u\<lparr>pendingTasks := valid\<rparr>) d3 = Inr d'"
  proof (cases "valid \<noteq> []")
    case True
    with rest that show ?thesis by (auto elim: sbindE)
  next
    case False
    with rest that [of d1] show ?thesis by simp
  qed
  have d3: "tasks d3 = map (claim_task nid ?n valid) (tasks d1)"
    "users d3 = map (yield_user nid valid) (users d1)"
    using take_over_or_not_shape [OF m] by simp_all
  have dist3: "distinct (map uid (users d3))"
    unfolding d3(2) using dist1 by (simp add: yield_user_def if_distrib comp_def cong: if_cong)
  have d': "tasks d' = tasks d3"
    "users d' = map (\<lambda>u. if cast_oid nid = Some (uid u) then u\<lparr>pendingTasks := valid\<rparr> else u) (users d3)"
    using updateOne_user_shape [OF u dist3] by simp_all
  have us: "users d' = map (post_user nid valid) (users d @ [?N])"
    unfolding d'(2) d3(2) d1(1) using assms(4)
    by (auto simp: post_user_def yield_user_def)
  have ts: "tasks d' = map (claim_task nid ?n valid) (tasks d)"
    unfolding d'(1) d3(1) d1(2) by simp
  from fresh v1 v2 ts us show ?thesis by blast
qed

lemma users_post_effect_wf:
  assumes "users_post_effect nid now b d = Inr d'" and "wf d" and "cast_oid nid = Some nid"
  shows "wf d'"
proof -
  from assms(2) have old: "distinct (map uid (users d))" "distinct (map tid (tasks d))"
    "\<forall>v \<in> set (users d). cast_oid (uid v) = Some (uid v)"
    "\<forall>v \<in> set (users d). set (pendingTasks v) \<subseteq> tid ` set (tasks d)"
    "\<forall>t \<in> set (tasks d). \<forall>u \<in> set (users d).
        (tid t \<in> set (pendingTasks u)) = (assignedUser t = uid u \<and> \<not> completed t)"
    "\<forall>t \<in> set (tasks d). completed t \<or> assignedUser t = [] \<or> assignedUser t \<in> uid ` set (users d)"
    by (simp_all add: wf_iff)
  from users_post_effect_shape [OF assms(1) old(1,2) assms(3)] obtain valid n where
    fresh: "nid \<notin> uid ` set (users d)"
    and v1: "set valid \<subseteq> tid ` set (tasks d)"
    and v2: "\<forall>t \<in> set (tasks d). tid t \<in> set valid \<longrightarrow> \<not> completed t"
    and ts: "tasks d' = map (claim_task nid n valid) (tasks d)"
    and us: "users d' = map (post_user nid valid) (users d @ [new_user nid now b])"
    by blast
  define g where "g = post_user nid valid"
  define h where "h = claim_task nid n valid"
  let ?N = "new_user nid now b"
  have us': "users d' = map g (users d @ [?N])" and ts': "tasks d' = map h (tasks d)"
    using us ts by (simp_all add: g_def h_def)
  have I1: "I1_open d'"
    using users_post_effect_I1_open [OF assms(1)] assms(2) by (simp add: wf_def)
  have nne: "nid \<noteq> []"
    using assms(3) cast_oid_nonempty by blast
  have guid: "\<And>u. uid (g u) = uid u"
    by (simp add: g_def post_user_def)
  have gpend: "\<And>u. set (pendingTasks (g u)) = (if nid = uid u then set valid else set (pendingTasks u) - set valid)"
    by (simp add: g_def post_user_def set_pull_in)
  have htid: "\<And>t. tid (h t) = tid t" and hcomp: "\<And>t. completed (h t) = completed t"
    by (simp_all add: h_def claim_task_def assign_def)
  have hass: "\<And>t. assignedUser (h t) = (if tid t \<in> set valid then nid else assignedUser t)"
    by (simp add: h_def claim_task_def assign_def)
  have tids: "map tid (tasks d') = map tid (tasks d)"
    unfolding ts' using htid by (simp add: comp_def)
  then have tset: "tid ` set (tasks d') = tid ` set (tasks d)"
    by (metis set_map)
  have uidN: "uid ?N = nid"
    by (simp add: new_user_def)
  have r1: "distinct (map uid (users d'))"
    unfolding us' using old(1) guid fresh uidN by (simp add: comp_def)
  have r2: "distinct (map tid (tasks d'))"
    unfolding tids using old(2) .
  have r3: "\<forall>v \<in> set (users d'). cast_oid (uid v) = Some (uid v)"
    unfolding us' using old(3) guid assms(3) uidN by auto
  have r4: "\<forall>v \<in> set (users d'). set (pendingTasks v) \<subseteq> tid ` set (tasks d')"
  proof
    fix v assume "v \<in> set (users d')"
    then obtain u where u: "u \<in> set (users d) \<or> u = ?N" and v: "v = g u"
      unfolding us' by auto
    from u show "set (pendingTasks v) \<subseteq> tid ` set (tasks d')"
    proof
      assume "u \<in> set (users d)"
      with old(4) v1 show ?thesis
        unfolding v gpend tset by auto
    next
      assume "u = ?N"
      with v1 uidN show ?thesis
        unfolding v gpend tset by simp
    qed
  qed
  have i2: "\<forall>x \<in> set (tasks d'). \<forall>v \<in> set (users d').
        (tid x \<in> set (pendingTasks v)) = (assignedUser x = uid v \<and> \<not> completed x)"
  proof (intro ballI)
    fix x v assume "x \<in> set (tasks d')" and "v \<in> set (users d')"
    then obtain u t where u: "u \<in> set (users d) \<or> u = ?N" and v: "v = g u"
      and t: "t \<in> set (tasks d)" and x: "x = h t"
      unfolding us' ts' by auto
    from v2 t have vo: "tid t \<in> set valid \<Longrightarrow> \<not> completed t"
      by blast
    from u show "(tid x \<in> set (pendingTasks v)) = (assignedUser x = uid v \<and> \<not> completed x)"
    proof
      assume u0: "u \<in> set (users d)"
      with old(5) t have o: "(tid t \<in> set (pendingTasks u)) = (assignedUser t = uid u \<and> \<not> completed t)"
        by blast
      from u0 fresh have "nid \<noteq> uid u" by auto
      with o vo show ?thesis
        unfolding v x gpend guid htid hcomp hass by auto
    next
      assume uN: "u = ?N"
      from old(6) t fresh nne have "assignedUser t = nid \<Longrightarrow> completed t"
        by auto
      with vo uidN show ?thesis
        unfolding v x gpend guid htid hcomp hass uN by auto
    qed
  qed
  show ?thesis
    unfolding wf_iff using i2 r1 r2 r3 r4 I1 by (simp add: I1_open_iff)
qed

lemma effect_wf:
  assumes "effect rq d = Inr d'" and "wf d" and "canonical_request rq"
  shows "wf d'"
  using assms
  by (cases rq)
    (auto intro: users_post_effect_wf users_put_effect_wf users_delete_effect_wf
      tasks_post_effect_wf tasks_put_effect_wf tasks_delete_effect_wf)

lemma handle_wf:
  assumes "wf d" and "canonical_request rq"
  shows "wf (snd (handle fp rq d))"
proof -
  obtain r d' where h: "handle fp rq d = (r, d')"
    by (cases "handle fp rq d")
  from handle_trace [OF h] show ?thesis
  proof
    assume "d' = d \<and> (\<forall>x. r = Some x \<longrightarrow> 400 \<le> status x)"
    with h assms(1) show ?thesis by simp
  next
    assume "effect rq d = Inr d' \<and> (\<exists>x. r = Some x \<and> status x < 300)"
    with effect_wf [of rq d d'] assms h show ?thesis by simp
  qed
qed

lemma canonical_wf:
  assumes "canonical d"
  shows "wf d"
  using assms
proof (induction rule: canonical.induct)
  case init
  show ?case by (simp add: wf_def I2_def I1_open_def empty_db_def)
next
  case (step d rq fp)
  then show ?case by (simp add: handle_wf)
qed

lemma canonical_I2:
  assumes "canonical d"
  shows "I2 d"
  using canonical_wf [OF assms] by (simp add: wf_def)

end
